theory Spec2Isabelle
  imports Main "HOL-Library.Word" "HOL-Library.List_Lexorder"
begin

unbundle bit_operations_syntax

section \<open>The tag tree of nbt.hpp\<close>

text \<open>
  A \<^verbatim>\<open>std::byte\<close> and an \<^verbatim>\<open>int8_t\<close> are 8-bit words (\<open>sint\<close> reads the signed
  value). A \<^verbatim>\<open>std::string\<close> is its sequence of bytes; \<^verbatim>\<open>operator<\<close> on it compares
  the bytes as unsigned values, lexicographically, which is the order of
  \<open>8 word list\<close>. A \<^verbatim>\<open>float\<close> or \<^verbatim>\<open>double\<close> is kept as the bit pattern that
  \<^verbatim>\<open>std::bit_cast\<close> copies into it.

  \<^verbatim>\<open>CompoundTag\<close> wraps a \<^verbatim>\<open>std::map<std::string, Tag>\<close>: the association list of
  its entries in the order in which \<^verbatim>\<open>begin()\<close> .. \<^verbatim>\<open>end()\<close> enumerates them.
  \<^verbatim>\<open>ListTag\<close> wraps a \<^verbatim>\<open>std::list<Tag>\<close>, the three \<^verbatim>\<open>ArrayTag\<close>s a
  \<^verbatim>\<open>std::vector\<close>.
\<close>

type_synonym byte = "8 word"

type_synonym std_string = "byte list"

datatype Tag =
    EndTag
  | ByteTag "8 word"
  | ShortTag "16 word"
  | IntTag "32 word"
  | LongTag "64 word"
  | FloatTag "32 word"
  | DoubleTag "64 word"
  | StringTag std_string
  | ByteArrayTag "8 word list"
  | IntArrayTag "32 word list"
  | LongArrayTag "64 word list"
  | ListTag "Tag list"
  | CompoundTag "(std_string \<times> Tag) list"

text \<open>
  \<^verbatim>\<open>std::map::emplace\<close>: the entry is inserted at its place in the key order; when
  the key is already present the map is left as it is.
\<close>

fun emplace :: "std_string \<Rightarrow> Tag \<Rightarrow> (std_string \<times> Tag) list \<Rightarrow> (std_string \<times> Tag) list" where
  "emplace name tag [] = [(name, tag)]"
| "emplace name tag ((k, v) # m) =
     (if name = k then (k, v) # m
      else if name < k then (name, tag) # (k, v) # m
      else (k, v) # emplace name tag m)"

section \<open>The cursor\<close>

text \<open>
  \<^verbatim>\<open>enum class ID\<close>, its enumerators written \<open>ID_END\<close> for \<^verbatim>\<open>ID::END\<close> and so on.
  A byte that is none of the thirteen enumerators is \<open>None\<close>: it is what a
  \<^verbatim>\<open>switch\<close> sends to \<^verbatim>\<open>default\<close>.
\<close>

datatype ID = ID_END | ID_BYTE | ID_SHORT | ID_INT | ID_LONG | ID_FLOAT | ID_DOUBLE
  | ID_BYTE_ARRAY | ID_STRING | ID_LIST | ID_COMPOUND | ID_INT_ARRAY | ID_LONG_ARRAY

definition static_cast_ID :: "8 word \<Rightarrow> ID option" where
  "static_cast_ID w =
     (if w = 0 then Some ID_END else if w = 1 then Some ID_BYTE
      else if w = 2 then Some ID_SHORT else if w = 3 then Some ID_INT
      else if w = 4 then Some ID_LONG else if w = 5 then Some ID_FLOAT
      else if w = 6 then Some ID_DOUBLE else if w = 7 then Some ID_BYTE_ARRAY
      else if w = 8 then Some ID_STRING else if w = 9 then Some ID_LIST
      else if w = 10 then Some ID_COMPOUND else if w = 11 then Some ID_INT_ARRAY
      else if w = 12 then Some ID_LONG_ARRAY else None)"

text \<open>The two fields of \<^verbatim>\<open>NBTFile\<close>: the span and the offset into it.\<close>

record NBTFile =
  data :: "byte list"
  pos :: nat

text \<open>
  A read ends with a value and the advanced cursor, or without a value:
  \<^item> \<open>Nullopt\<close>: it returns \<^verbatim>\<open>std::nullopt\<close>;
  \<^item> \<open>OutOfRange\<close>: it makes an access that C++ leaves undefined, an index into the span
    at or past its size or a \<^verbatim>\<open>subspan\<close> that reaches past it; nothing is said of what
    the program does after such an access;
  \<^item> \<open>LengthError\<close>: \<^verbatim>\<open>std::vector::reserve\<close> throws \<^verbatim>\<open>std::length_error\<close>, which nothing
    in the decoder catches.
  Memory is not bounded in this model: no allocation fails for lack of it.
\<close>

datatype error = Nullopt | OutOfRange | LengthError

type_synonym 'a result = "error + ('a \<times> NBTFile)"

text \<open>\<^verbatim>\<open>data[pos++]\<close>.\<close>

definition next_byte :: "NBTFile \<Rightarrow> byte result" where
  "next_byte f =
     (if pos f < length (data f) then Inr (data f ! pos f, f\<lparr>pos := pos f + 1\<rparr>)
      else Inl OutOfRange)"

text \<open>
  \<^verbatim>\<open>std::bit_cast\<close> of a byte array to an integer of the same size, on a little-endian
  host: \<^verbatim>\<open>bytes[0]\<close> is the least significant byte.
\<close>

definition bit_cast :: "byte list \<Rightarrow> 'a::len word" where
  "bit_cast bytes = word_rcat (rev bytes)"

definition readI8 :: "NBTFile \<Rightarrow> (8 word) result" where
  "readI8 f =
     (if pos f > length (data f) then Inl Nullopt
      else next_byte f)"

definition readI16 :: "NBTFile \<Rightarrow> (16 word) result" where
  "readI16 f =
     (if pos f + 2 > length (data f) then Inl Nullopt
      else case next_byte f of Inl e \<Rightarrow> Inl e | Inr (b1, f1) \<Rightarrow>
           case next_byte f1 of Inl e \<Rightarrow> Inl e | Inr (b0, f2) \<Rightarrow>
           Inr (bit_cast [b0, b1], f2))"

definition readI32 :: "NBTFile \<Rightarrow> (32 word) result" where
  "readI32 f =
     (if pos f + 4 > length (data f) then Inl Nullopt
      else case next_byte f of Inl e \<Rightarrow> Inl e | Inr (b3, f1) \<Rightarrow>
           case next_byte f1 of Inl e \<Rightarrow> Inl e | Inr (b2, f2) \<Rightarrow>
           case next_byte f2 of Inl e \<Rightarrow> Inl e | Inr (b1, f3) \<Rightarrow>
           case next_byte f3 of Inl e \<Rightarrow> Inl e | Inr (b0, f4) \<Rightarrow>
           Inr (bit_cast [b0, b1, b2, b3], f4))"

definition readI64 :: "NBTFile \<Rightarrow> (64 word) result" where
  "readI64 f =
     (if pos f + 8 > length (data f) then Inl Nullopt
      else case next_byte f of Inl e \<Rightarrow> Inl e | Inr (b7, f1) \<Rightarrow>
           case next_byte f1 of Inl e \<Rightarrow> Inl e | Inr (b6, f2) \<Rightarrow>
           case next_byte f2 of Inl e \<Rightarrow> Inl e | Inr (b5, f3) \<Rightarrow>
           case next_byte f3 of Inl e \<Rightarrow> Inl e | Inr (b4, f4) \<Rightarrow>
           case next_byte f4 of Inl e \<Rightarrow> Inl e | Inr (b3, f5) \<Rightarrow>
           case next_byte f5 of Inl e \<Rightarrow> Inl e | Inr (b2, f6) \<Rightarrow>
           case next_byte f6 of Inl e \<Rightarrow> Inl e | Inr (b1, f7) \<Rightarrow>
           case next_byte f7 of Inl e \<Rightarrow> Inl e | Inr (b0, f8) \<Rightarrow>
           Inr (bit_cast [b0, b1, b2, b3, b4, b5, b6, b7], f8))"

text \<open>\<^verbatim>\<open>readF32\<close> and \<^verbatim>\<open>readF64\<close> reinterpret the integer they read.\<close>

definition readF32 :: "NBTFile \<Rightarrow> (32 word) result" where
  "readF32 f = (case readI32 f of Inl e \<Rightarrow> Inl e | Inr (i32, f1) \<Rightarrow> Inr (i32, f1))"

definition readF64 :: "NBTFile \<Rightarrow> (64 word) result" where
  "readF64 f = (case readI64 f of Inl e \<Rightarrow> Inl e | Inr (i64, f1) \<Rightarrow> Inr (i64, f1))"

text \<open>\<^verbatim>\<open>readID\<close>: the byte read, cast to the enumeration.\<close>

definition readID :: "NBTFile \<Rightarrow> (ID option) result" where
  "readID f = (case readI8 f of Inl e \<Rightarrow> Inl e | Inr (i8, f1) \<Rightarrow> Inr (static_cast_ID i8, f1))"

text \<open>
  A signed 16-bit or 32-bit value converted to \<^verbatim>\<open>size_t\<close> (64 bits): the value
  modulo \<open>2 ^ 64\<close>, so a negative value \<open>-k\<close> becomes \<open>2 ^ 64 - k\<close>.
\<close>

definition size_t_of_i16 :: "16 word \<Rightarrow> nat" where
  "size_t_of_i16 w = nat (sint w mod 2 ^ 64)"

definition size_t_of_i32 :: "32 word \<Rightarrow> nat" where
  "size_t_of_i32 w = nat (sint w mod 2 ^ 64)"

text \<open>
  \<^verbatim>\<open>std::span::subspan(offset, count)\<close>. Its precondition is
  \<^verbatim>\<open>offset <= size() && (count == dynamic_extent || count <= size() - offset)\<close>;
  outside it the behaviour is undefined (\<open>None\<close>). \<^verbatim>\<open>dynamic_extent\<close> is the largest
  \<^verbatim>\<open>size_t\<close> and asks for everything from \<open>offset\<close> on.
\<close>

definition dynamic_extent :: nat where
  "dynamic_extent = 2 ^ 64 - 1"

definition subspan :: "byte list \<Rightarrow> nat \<Rightarrow> nat \<Rightarrow> byte list option" where
  "subspan d offset count =
     (if offset \<le> length d \<and> (count = dynamic_extent \<or> count \<le> length d - offset)
      then Some (if count = dynamic_extent then drop offset d else take count (drop offset d))
      else None)"

text \<open>
  \<^verbatim>\<open>readString\<close>. The sum \<^verbatim>\<open>pos + *size\<close> is computed in \<^verbatim>\<open>size_t\<close>, so it wraps
  around at \<open>2 ^ 64\<close>.
\<close>

definition readString :: "NBTFile \<Rightarrow> std_string result" where
  "readString f =
     (case readI16 f of Inl e \<Rightarrow> Inl e | Inr (sz, f1) \<Rightarrow>
        if (pos f1 + size_t_of_i16 sz) mod 2 ^ 64 > length (data f1) then Inl Nullopt
        else case subspan (data f1) (pos f1) (size_t_of_i16 sz) of
               None \<Rightarrow> Inl OutOfRange
             | Some bytes \<Rightarrow> Inr (bytes, f1\<lparr>pos := pos f1 + length bytes\<rparr>))"

section \<open>The decoder\<close>

text \<open>
  \<^verbatim>\<open>std::vector<T>::max_size()\<close> for elements of \<open>sizeof_T\<close> bytes, as libstdc++ computes
  it (\<^verbatim>\<open>PTRDIFF_MAX / sizeof(T)\<close>). \<^verbatim>\<open>reserve(n)\<close> throws \<^verbatim>\<open>std::length_error\<close> when
  \<open>n\<close> is greater. The value differs between standard libraries, but in each it lies
  between \<open>2 ^ 31\<close> and \<open>2 ^ 63\<close>, so that a count read from 32 bits is refused exactly
  when it is negative.
\<close>

definition vector_max_size :: "nat \<Rightarrow> nat" where
  "vector_max_size sizeof_T = (2 ^ 63 - 1) div sizeof_T"

text \<open>
  The loop of the three array readers,
  \<^verbatim>\<open>for (size_t i = 0; i < size; ++i) { if (auto v = rd()) array.emplace_back(*v); else return std::nullopt; }\<close>,
  with \<open>rd\<close> one of \<^verbatim>\<open>readI8\<close>, \<^verbatim>\<open>readI32\<close>, \<^verbatim>\<open>readI64\<close>.
\<close>

function array_loop :: "(NBTFile \<Rightarrow> 'a result) \<Rightarrow> nat \<Rightarrow> nat \<Rightarrow> 'a list \<Rightarrow> NBTFile \<Rightarrow> ('a list) result" where
  "array_loop rd i n acc f =
     (if i < n then
        (case rd f of Inl e \<Rightarrow> Inl e
         | Inr (v, f1) \<Rightarrow> array_loop rd (i + 1) n (acc @ [v]) f1)
      else Inr (acc, f))"
  by pat_completeness auto

termination
  by (relation "measure (\<lambda>(rd, i, n, acc, f). n - i)") auto

declare array_loop.simps [simp del]

text \<open>
  In the \<^verbatim>\<open>switch\<close> of \<^verbatim>\<open>readTag<CompoundTag>\<close> every case passes
  \<^verbatim>\<open>std::move(*name)\<close> to a by-value parameter, which move-constructs the parameter and
  leaves \<^verbatim>\<open>*name\<close> in a valid but unspecified state. The case \<^verbatim>\<open>ID::LIST\<close> has no
  \<^verbatim>\<open>break\<close>, so the case \<^verbatim>\<open>ID::COMPOUND\<close> below it runs with the moved-from string.
  libstdc++, libc++ and the MSVC library all leave a moved-from string empty.
\<close>

definition moved_from :: "std_string \<Rightarrow> std_string" where
  "moved_from name = []"

text \<open>
  \<open>readTag T\<close> is the specialisation \<^verbatim>\<open>readTag<T>\<close> for the tag type of kind \<open>T\<close>,
  \<open>readListTag T\<close> is \<^verbatim>\<open>readListTag<T>\<close> and \<open>readListTag_loop\<close> its \<^verbatim>\<open>for\<close> loop;
  \<open>readCompound_loop\<close> is the \<^verbatim>\<open>while (true)\<close> loop of \<^verbatim>\<open>readTag<CompoundTag>\<close>, with
  the map built so far as its first argument. In that loop the kind \<^verbatim>\<open>ID::END\<close> has
  returned before the \<^verbatim>\<open>switch\<close>; the \<^verbatim>\<open>switch\<close> itself has no case for it. All cases
  but \<^verbatim>\<open>ID::LIST\<close> have the same shape and are one branch here.
\<close>

function readTag :: "ID \<Rightarrow> NBTFile \<Rightarrow> Tag result"
  and readListTag :: "ID \<Rightarrow> NBTFile \<Rightarrow> Tag result"
  and readListTag_loop :: "ID \<Rightarrow> nat \<Rightarrow> nat \<Rightarrow> Tag list \<Rightarrow> NBTFile \<Rightarrow> Tag result"
  and readCompound_loop :: "(std_string \<times> Tag) list \<Rightarrow> NBTFile \<Rightarrow> Tag result"
where
  "readTag T f =
     (case T of
        ID_END \<Rightarrow> Inr (EndTag, f)
      | ID_BYTE \<Rightarrow> (case readI8 f of Inl e \<Rightarrow> Inl e | Inr (i8, f1) \<Rightarrow> Inr (ByteTag i8, f1))
      | ID_SHORT \<Rightarrow> (case readI16 f of Inl e \<Rightarrow> Inl e | Inr (i16, f1) \<Rightarrow> Inr (ShortTag i16, f1))
      | ID_INT \<Rightarrow> (case readI32 f of Inl e \<Rightarrow> Inl e | Inr (i32, f1) \<Rightarrow> Inr (IntTag i32, f1))
      | ID_LONG \<Rightarrow> (case readI64 f of Inl e \<Rightarrow> Inl e | Inr (i64, f1) \<Rightarrow> Inr (LongTag i64, f1))
      | ID_FLOAT \<Rightarrow> (case readF32 f of Inl e \<Rightarrow> Inl e | Inr (f32, f1) \<Rightarrow> Inr (FloatTag f32, f1))
      | ID_DOUBLE \<Rightarrow> (case readF64 f of Inl e \<Rightarrow> Inl e | Inr (f64, f1) \<Rightarrow> Inr (DoubleTag f64, f1))
      | ID_BYTE_ARRAY \<Rightarrow>
          (case readI32 f of Inl e \<Rightarrow> Inl e | Inr (len, f1) \<Rightarrow>
             if vector_max_size 1 < size_t_of_i32 len then Inl LengthError
             else (case array_loop readI8 0 (size_t_of_i32 len) [] f1 of Inl e \<Rightarrow> Inl e
                   | Inr (array, f2) \<Rightarrow> Inr (ByteArrayTag array, f2)))
      | ID_STRING \<Rightarrow> (case readString f of Inl e \<Rightarrow> Inl e | Inr (str, f1) \<Rightarrow> Inr (StringTag str, f1))
      | ID_LIST \<Rightarrow>
          (case readID f of Inl e \<Rightarrow> Inl e | Inr (kind, f1) \<Rightarrow>
             (case kind of None \<Rightarrow> Inl Nullopt | Some E \<Rightarrow> readListTag E f1))
      | ID_COMPOUND \<Rightarrow> readCompound_loop [] f
      | ID_INT_ARRAY \<Rightarrow>
          (case readI32 f of Inl e \<Rightarrow> Inl e | Inr (len, f1) \<Rightarrow>
             if vector_max_size 4 < size_t_of_i32 len then Inl LengthError
             else (case array_loop readI32 0 (size_t_of_i32 len) [] f1 of Inl e \<Rightarrow> Inl e
                   | Inr (array, f2) \<Rightarrow> Inr (IntArrayTag array, f2)))
      | ID_LONG_ARRAY \<Rightarrow>
          (case readI32 f of Inl e \<Rightarrow> Inl e | Inr (len, f1) \<Rightarrow>
             if vector_max_size 8 < size_t_of_i32 len then Inl LengthError
             else (case array_loop readI64 0 (size_t_of_i32 len) [] f1 of Inl e \<Rightarrow> Inl e
                   | Inr (array, f2) \<Rightarrow> Inr (LongArrayTag array, f2))))"
| "readListTag T f =
     (case readI32 f of Inl e \<Rightarrow> Inl e
      | Inr (len, f1) \<Rightarrow> readListTag_loop T 0 (size_t_of_i32 len) [] f1)"
| "readListTag_loop T i n list f =
     (if i < n then
        (case readTag T f of Inl e \<Rightarrow> Inl e
         | Inr (v, f1) \<Rightarrow> readListTag_loop T (i + 1) n (list @ [v]) f1)
      else Inr (ListTag list, f))"
| "readCompound_loop ct f =
     (case readID f of Inl e \<Rightarrow> Inl e | Inr (kind, f1) \<Rightarrow>
        if kind = Some ID_END then Inr (CompoundTag ct, f1)
        else (case readString f1 of Inl e \<Rightarrow> Inl e | Inr (name, f2) \<Rightarrow>
          (case kind of None \<Rightarrow> Inl Nullopt
           | Some T \<Rightarrow>
               if T = ID_END then Inl Nullopt
               else if T = ID_LIST then
                 (case readTag ID_LIST f2 of Inl e \<Rightarrow> Inl e | Inr (tag, f3) \<Rightarrow>
                    (case readTag ID_COMPOUND f3 of Inl e \<Rightarrow> Inl e | Inr (tag', f4) \<Rightarrow>
                       readCompound_loop (emplace (moved_from name) tag' (emplace name tag ct)) f4))
               else
                 (case readTag T f2 of Inl e \<Rightarrow> Inl e | Inr (tag, f3) \<Rightarrow>
                    readCompound_loop (emplace name tag ct) f3))))"
  by pat_completeness auto

text \<open>
  Termination: a successful read never moves the cursor back, every compound entry and
  every list header consumes at least one byte, and a list's loop counts up to its bound.
\<close>

lemma next_byte_Inr:
  "next_byte f = Inr (b, f') \<Longrightarrow> pos f < length (data f) \<and> b = data f ! pos f \<and> f' = f\<lparr>pos := pos f + 1\<rparr>"
  by (auto simp: next_byte_def split: if_splits)

lemma readI8_Inr:
  "readI8 f = Inr (b, f') \<Longrightarrow> pos f < length (data f) \<and> b = data f ! pos f \<and> f' = f\<lparr>pos := pos f + 1\<rparr>"
  by (auto simp: readI8_def dest: next_byte_Inr split: if_splits)

lemma readID_Inr:
  "readID f = Inr (k, f') \<Longrightarrow>
     pos f < length (data f) \<and> k = static_cast_ID (data f ! pos f) \<and> f' = f\<lparr>pos := pos f + 1\<rparr>"
  by (auto simp: readID_def dest: readI8_Inr split: sum.splits)

lemma readI16_Inr:
  "readI16 f = Inr (v, f') \<Longrightarrow> pos f + 2 \<le> length (data f) \<and> f' = f\<lparr>pos := pos f + 2\<rparr>"
  by (auto simp: readI16_def next_byte_def split: if_splits)

lemma readI32_Inr:
  "readI32 f = Inr (v, f') \<Longrightarrow> pos f + 4 \<le> length (data f) \<and> f' = f\<lparr>pos := pos f + 4\<rparr>"
  by (auto simp: readI32_def next_byte_def split: if_splits)

lemma readI64_Inr:
  "readI64 f = Inr (v, f') \<Longrightarrow> pos f + 8 \<le> length (data f) \<and> f' = f\<lparr>pos := pos f + 8\<rparr>"
  by (auto simp: readI64_def next_byte_def split: if_splits)

lemma readString_Inr:
  "readString f = Inr (s, f') \<Longrightarrow>
     data f' = data f \<and> pos f + 2 \<le> pos f' \<and> pos f' \<le> length (data f)"
  by (auto simp: readString_def subspan_def dest!: readI16_Inr split: sum.splits if_splits option.splits)

lemma array_loop_mono:
  "(\<And>f v f'. rd f = Inr (v, f') \<Longrightarrow> data f' = data f \<and> pos f \<le> pos f') \<Longrightarrow>
   array_loop rd i n acc f = Inr (a, f') \<Longrightarrow> data f' = data f \<and> pos f \<le> pos f'"
proof (induction rd i n acc f rule: array_loop.induct)
  case (1 rd i n acc f)
  show ?case
  proof (cases "i < n")
    case False
    with "1.prems"(2) show ?thesis by (simp add: array_loop.simps [of rd i n acc f])
  next
    case True
    with "1.prems"(2) obtain v f1 where r: "rd f = Inr (v, f1)"
      and l: "array_loop rd (i + 1) n (acc @ [v]) f1 = Inr (a, f')"
      by (auto simp: array_loop.simps [of rd i n acc f] split: sum.splits)
    from "1.prems"(1) [OF r] have s1: "data f1 = data f \<and> pos f \<le> pos f1" .
    from "1.IH" [OF True r refl "1.prems"(1) l]
    have "data f' = data f1 \<and> pos f1 \<le> pos f'" by simp
    with s1 show ?thesis by simp
  qed
qed

lemma readTag_mono_partial:
  "readTag_readListTag_readListTag_loop_readCompound_loop_dom (Inl (Inl (T, f))) \<Longrightarrow>
     readTag T f = Inr (v, f') \<Longrightarrow> data f' = data f \<and> pos f \<le> pos f'"
  "readTag_readListTag_readListTag_loop_readCompound_loop_dom (Inl (Inr (T, f))) \<Longrightarrow>
     readListTag T f = Inr (v, f') \<Longrightarrow> data f' = data f \<and> pos f \<le> pos f'"
  "readTag_readListTag_readListTag_loop_readCompound_loop_dom (Inr (Inl (T, i, n, list, f))) \<Longrightarrow>
     readListTag_loop T i n list f = Inr (v, f') \<Longrightarrow> data f' = data f \<and> pos f \<le> pos f'"
  "readTag_readListTag_readListTag_loop_readCompound_loop_dom (Inr (Inr (ct, f))) \<Longrightarrow>
     readCompound_loop ct f = Inr (v, f') \<Longrightarrow> data f' = data f \<and> pos f \<le> pos f'"
proof (induction T f and T f and T i n list f and ct f arbitrary: v f' and v f' and v f' and v f'
    rule: readTag_readListTag_readListTag_loop_readCompound_loop.pinduct)
  case (1 T f)
  note eq = readTag.psimps [OF "1.hyps"]
  show ?case
  proof (cases T)
    case ID_LIST
    with "1.prems" eq obtain k f1 E where r: "readID f = Inr (k, f1)" and k: "k = Some E"
      and l: "readListTag E f1 = Inr (v, f')"
      by (auto split: sum.splits option.splits)
    from "1.IH"(1) [OF ID_LIST r refl k l] readID_Inr [OF r] show ?thesis by simp
  next
    case ID_COMPOUND
    with "1.prems" eq have "readCompound_loop [] f = Inr (v, f')" by simp
    from "1.IH"(2) [OF ID_COMPOUND this] show ?thesis .
  next
    case ID_BYTE_ARRAY
    with "1.prems" eq show ?thesis
      by (auto split: sum.splits if_splits dest!: readI32_Inr array_loop_mono [rotated] readI8_Inr)
  next
    case ID_INT_ARRAY
    with "1.prems" eq show ?thesis
      by (auto split: sum.splits if_splits dest!: readI32_Inr array_loop_mono [rotated])
  next
    case ID_LONG_ARRAY
    with "1.prems" eq show ?thesis
      by (auto split: sum.splits if_splits dest!: readI32_Inr readI64_Inr array_loop_mono [rotated])
  qed (use "1.prems" eq in \<open>auto simp: readF32_def readF64_def split: sum.splits
         dest!: readI8_Inr readI16_Inr readI32_Inr readI64_Inr readString_Inr\<close>)
next
  case (2 T f)
  note eq = readListTag.psimps [OF "2.hyps"]
  from "2.prems" eq obtain len f1 where r: "readI32 f = Inr (len, f1)"
    and l: "readListTag_loop T 0 (size_t_of_i32 len) [] f1 = Inr (v, f')"
    by (auto split: sum.splits)
  from "2.IH" [OF r refl l] readI32_Inr [OF r] show ?case by simp
next
  case (3 T i n list f)
  note eq = readListTag_loop.psimps [OF "3.hyps"]
  show ?case
  proof (cases "i < n")
    case False
    with "3.prems" eq show ?thesis by simp
  next
    case True
    with "3.prems" eq obtain x f1 where r: "readTag T f = Inr (x, f1)"
      and l: "readListTag_loop T (i + 1) n (list @ [x]) f1 = Inr (v, f')"
      by (auto split: sum.splits)
    from "3.IH"(1) [OF True r] "3.IH"(2) [OF True r refl l] show ?thesis by simp
  qed
next
  case (4 ct f)
  note eq = readCompound_loop.psimps [OF "4.hyps"]
  from "4.prems" eq obtain k f1 where r: "readID f = Inr (k, f1)"
    by (auto split: sum.splits)
  note s1 = readID_Inr [OF r]
  show ?case
  proof (cases "k = Some ID_END")
    case True
    with "4.prems" eq r s1 show ?thesis by auto
  next
    case False
    with "4.prems" eq r obtain name f2 T where n: "readString f1 = Inr (name, f2)"
      and k: "k = Some T" and T: "T \<noteq> ID_END"
      by (auto split: sum.splits option.splits if_splits)
    note s2 = readString_Inr [OF n]
    show ?thesis
    proof (cases "T = ID_LIST")
      case True
      with "4.prems" eq r n k False obtain tag f3 tag' f4
        where t: "readTag ID_LIST f2 = Inr (tag, f3)"
          and t': "readTag ID_COMPOUND f3 = Inr (tag', f4)"
          and l: "readCompound_loop (emplace (moved_from name) tag' (emplace name tag ct)) f4 = Inr (v, f')"
        by (auto split: sum.splits)
      from True k have kL: "k = Some ID_LIST" by simp
      note a = "4.IH"(1) [OF r refl False n refl k T True t]
      note b = "4.IH"(2) [OF r refl False n refl k T True t refl t']
      note c = "4.IH"(3) [OF r refl False n refl k T True t refl t' refl l]
      from a b c s1 s2 show ?thesis by simp
    next
      case F: False
      with "4.prems" eq r n k False T obtain tag f3
        where t: "readTag T f2 = Inr (tag, f3)"
          and l: "readCompound_loop (emplace name tag ct) f3 = Inr (v, f')"
        by (auto split: sum.splits)
      note a = "4.IH"(4) [OF r refl False n refl k T F t]
      note b = "4.IH"(5) [OF r refl False n refl k T F t refl l]
      from a b s1 s2 show ?thesis by simp
    qed
  qed
qed

termination readTag
proof (relation "inv_image (less_than <*lex*> less_than)
     (\<lambda>x. case x of Inl (Inl (T, f)) \<Rightarrow> (length (data f) - pos f, 1)
          | Inl (Inr (T, f)) \<Rightarrow> (length (data f) - pos f, 0)
          | Inr (Inl (T, i, n, l, f)) \<Rightarrow> (length (data f) - pos f, 2 + (n - i))
          | Inr (Inr (ct, f)) \<Rightarrow> (length (data f) - pos f, 0))", goal_cases)
  case 1
  show ?case by (intro wf_inv_image wf_lex_prod wf_less_than)
qed (auto dest!: readID_Inr readI32_Inr readString_Inr readTag_mono_partial(1))

declare readTag.simps [simp del] readListTag.simps [simp del]
  readListTag_loop.simps [simp del] readCompound_loop.simps [simp del]

text \<open>
  \<^verbatim>\<open>read\<close>, on a fresh \<^verbatim>\<open>NBTFile\<close> over the buffer. \<^verbatim>\<open>value_or(ID::END)\<close> turns a
  failed \<^verbatim>\<open>readID\<close> into a kind that is not \<^verbatim>\<open>ID::COMPOUND\<close>.
\<close>

definition read :: "byte list \<Rightarrow> error + Tag" where
  "read d =
     (case readID \<lparr>data = d, pos = 0\<rparr> of Inl e \<Rightarrow> Inl e | Inr (kind, f1) \<Rightarrow>
        if kind \<noteq> Some ID_COMPOUND then Inl Nullopt
        else (case readString f1 of Inl e \<Rightarrow> Inl e | Inr (name, f2) \<Rightarrow>
          (case readTag ID_COMPOUND f2 of Inl e \<Rightarrow> Inl e | Inr (tag, f3) \<Rightarrow>
             Inr (CompoundTag (emplace name tag [])))))"

section \<open>Successful decodes\<close>

text \<open>
  The runs of the decoder that return a value, as derivations: \<open>decodes T f v f'\<close>
  holds exactly when \<open>readTag T f\<close> returns \<open>v\<close> and leaves the cursor at \<open>f'\<close>, and
  likewise for the two loops (\<open>decodes_sound\<close>, \<open>decodes_complete\<close>). Properties of
  every successful decode are proved by induction on these derivations.
\<close>

inductive decodes :: "ID \<Rightarrow> NBTFile \<Rightarrow> Tag \<Rightarrow> NBTFile \<Rightarrow> bool"
  and list_decodes :: "ID \<Rightarrow> nat \<Rightarrow> nat \<Rightarrow> Tag list \<Rightarrow> NBTFile \<Rightarrow> Tag \<Rightarrow> NBTFile \<Rightarrow> bool"
  and compound_decodes :: "(std_string \<times> Tag) list \<Rightarrow> NBTFile \<Rightarrow> Tag \<Rightarrow> NBTFile \<Rightarrow> bool"
where
  dec_END: "decodes ID_END f EndTag f"
| dec_BYTE: "readI8 f = Inr (i8, f') \<Longrightarrow> decodes ID_BYTE f (ByteTag i8) f'"
| dec_SHORT: "readI16 f = Inr (i16, f') \<Longrightarrow> decodes ID_SHORT f (ShortTag i16) f'"
| dec_INT: "readI32 f = Inr (i32, f') \<Longrightarrow> decodes ID_INT f (IntTag i32) f'"
| dec_LONG: "readI64 f = Inr (i64, f') \<Longrightarrow> decodes ID_LONG f (LongTag i64) f'"
| dec_FLOAT: "readI32 f = Inr (i32, f') \<Longrightarrow> decodes ID_FLOAT f (FloatTag i32) f'"
| dec_DOUBLE: "readI64 f = Inr (i64, f') \<Longrightarrow> decodes ID_DOUBLE f (DoubleTag i64) f'"
| dec_BYTE_ARRAY: "readI32 f = Inr (len, f1) \<Longrightarrow>
     \<not> vector_max_size 1 < size_t_of_i32 len \<Longrightarrow>
     array_loop readI8 0 (size_t_of_i32 len) [] f1 = Inr (a8, f') \<Longrightarrow>
     decodes ID_BYTE_ARRAY f (ByteArrayTag a8) f'"
| dec_STRING: "readString f = Inr (str, f') \<Longrightarrow> decodes ID_STRING f (StringTag str) f'"
| dec_LIST: "readID f = Inr (Some E, f1) \<Longrightarrow> readI32 f1 = Inr (len, f2) \<Longrightarrow>
     list_decodes E 0 (size_t_of_i32 len) [] f2 v f' \<Longrightarrow> decodes ID_LIST f v f'"
| dec_COMPOUND: "compound_decodes [] f v f' \<Longrightarrow> decodes ID_COMPOUND f v f'"
| dec_INT_ARRAY: "readI32 f = Inr (len, f1) \<Longrightarrow>
     \<not> vector_max_size 4 < size_t_of_i32 len \<Longrightarrow>
     array_loop readI32 0 (size_t_of_i32 len) [] f1 = Inr (a32, f') \<Longrightarrow>
     decodes ID_INT_ARRAY f (IntArrayTag a32) f'"
| dec_LONG_ARRAY: "readI32 f = Inr (len, f1) \<Longrightarrow>
     \<not> vector_max_size 8 < size_t_of_i32 len \<Longrightarrow>
     array_loop readI64 0 (size_t_of_i32 len) [] f1 = Inr (a64, f') \<Longrightarrow>
     decodes ID_LONG_ARRAY f (LongArrayTag a64) f'"
| list_done: "\<not> i < n \<Longrightarrow> list_decodes T i n list f (ListTag list) f"
| list_step: "i < n \<Longrightarrow> decodes T f x f1 \<Longrightarrow>
     list_decodes T (i + 1) n (list @ [x]) f1 v f' \<Longrightarrow> list_decodes T i n list f v f'"
| comp_end: "readID f = Inr (Some ID_END, f1) \<Longrightarrow> compound_decodes ct f (CompoundTag ct) f1"
| comp_list: "readID f = Inr (Some ID_LIST, f1) \<Longrightarrow> readString f1 = Inr (name, f2) \<Longrightarrow>
     decodes ID_LIST f2 tag f3 \<Longrightarrow> decodes ID_COMPOUND f3 tag' f4 \<Longrightarrow>
     compound_decodes (emplace (moved_from name) tag' (emplace name tag ct)) f4 v f' \<Longrightarrow>
     compound_decodes ct f v f'"
| comp_entry: "T \<noteq> ID_END \<Longrightarrow> T \<noteq> ID_LIST \<Longrightarrow>
     readID f = Inr (Some T, f1) \<Longrightarrow> readString f1 = Inr (name, f2) \<Longrightarrow>
     decodes T f2 tag f3 \<Longrightarrow> compound_decodes (emplace name tag ct) f3 v f' \<Longrightarrow>
     compound_decodes ct f v f'"

lemma decodes_sound:
  "decodes T f v f' \<Longrightarrow> readTag T f = Inr (v, f')"
  "list_decodes T i n list f v f' \<Longrightarrow> readListTag_loop T i n list f = Inr (v, f')"
  "compound_decodes ct f v f' \<Longrightarrow> readCompound_loop ct f = Inr (v, f')"
proof (induction rule: decodes_list_decodes_compound_decodes.inducts)
  case (list_done i n T list f)
  then show ?case by (simp add: readListTag_loop.simps [of T i n list f])
next
  case (list_step i n T f x f1 list v f')
  then show ?case by (simp add: readListTag_loop.simps [of T i n list f])
next
  case (comp_end f f1 ct)
  then show ?case by (simp add: readCompound_loop.simps [of ct f])
next
  case (comp_list f f1 name f2 tag f3 tag' f4 ct v f')
  then show ?case by (simp add: readCompound_loop.simps [of ct f])
next
  case (comp_entry T f f1 name f2 tag f3 ct v f')
  then show ?case by (simp add: readCompound_loop.simps [of ct f])
qed (simp_all add: readTag.simps readListTag.simps readF32_def readF64_def)

lemma decodes_complete:
  "readTag T f = Inr (v, f') \<Longrightarrow> decodes T f v f'"
  "readListTag T f = Inr (v, f') \<Longrightarrow>
     (\<exists>len f1. readI32 f = Inr (len, f1) \<and> list_decodes T 0 (size_t_of_i32 len) [] f1 v f')"
  "readListTag_loop T i n list f = Inr (v, f') \<Longrightarrow> list_decodes T i n list f v f'"
  "readCompound_loop ct f = Inr (v, f') \<Longrightarrow> compound_decodes ct f v f'"
proof (induction T f and T f and T i n list f and ct f arbitrary: v f' and v f' and v f' and v f'
    rule: readTag_readListTag_readListTag_loop_readCompound_loop.induct)
  case (1 T f)
  note eq = readTag.simps [of T f]
  show ?case
  proof (cases T)
    case ID_LIST
    with "1.prems" eq obtain k f1 E where r: "readID f = Inr (k, f1)" and k: "k = Some E"
      and l: "readListTag E f1 = Inr (v, f')"
      by (auto split: sum.splits option.splits)
    from "1.IH"(1) [OF ID_LIST r refl k l] r k ID_LIST show ?thesis
      by (auto intro: dec_LIST)
  next
    case ID_COMPOUND
    with "1.prems" eq have "readCompound_loop [] f = Inr (v, f')" by simp
    from "1.IH"(2) [OF ID_COMPOUND this] ID_COMPOUND show ?thesis
      by (auto intro: dec_COMPOUND)
  qed (use "1.prems" eq in \<open>auto simp: readF32_def readF64_def simp del: One_nat_def
         split: sum.splits if_splits intro: decodes_list_decodes_compound_decodes.intros\<close>)
next
  case (2 T f)
  note eq = readListTag.simps [of T f]
  from "2.prems" eq obtain len f1 where r: "readI32 f = Inr (len, f1)"
    and l: "readListTag_loop T 0 (size_t_of_i32 len) [] f1 = Inr (v, f')"
    by (auto split: sum.splits)
  from "2.IH" [OF r refl l] r show ?case by blast
next
  case (3 T i n list f)
  note eq = readListTag_loop.simps [of T i n list f]
  show ?case
  proof (cases "i < n")
    case False
    with "3.prems" eq show ?thesis by (auto intro: list_done)
  next
    case True
    with "3.prems" eq obtain x f1 where r: "readTag T f = Inr (x, f1)"
      and l: "readListTag_loop T (i + 1) n (list @ [x]) f1 = Inr (v, f')"
      by (auto split: sum.splits)
    from "3.IH"(1) [OF True r] "3.IH"(2) [OF True r refl l] True show ?thesis
      by (auto intro: list_step)
  qed
next
  case (4 ct f)
  note eq = readCompound_loop.simps [of ct f]
  from "4.prems" eq obtain k f1 where r: "readID f = Inr (k, f1)"
    by (auto split: sum.splits)
  show ?case
  proof (cases "k = Some ID_END")
    case True
    with "4.prems" eq r show ?thesis by (auto intro: comp_end)
  next
    case False
    with "4.prems" eq r obtain name f2 T where n: "readString f1 = Inr (name, f2)"
      and k: "k = Some T" and T: "T \<noteq> ID_END"
      by (auto split: sum.splits option.splits if_splits)
    show ?thesis
    proof (cases "T = ID_LIST")
      case True
      with "4.prems" eq r n k False obtain tag f3 tag' f4
        where t: "readTag ID_LIST f2 = Inr (tag, f3)"
          and t': "readTag ID_COMPOUND f3 = Inr (tag', f4)"
          and l: "readCompound_loop (emplace (moved_from name) tag' (emplace name tag ct)) f4 = Inr (v, f')"
        by (auto split: sum.splits)
      note a = "4.IH"(1) [OF r refl False n refl k T True t]
      note b = "4.IH"(2) [OF r refl False n refl k T True t refl t']
      note c = "4.IH"(3) [OF r refl False n refl k T True t refl t' refl l]
      from r k True have "readID f = Inr (Some ID_LIST, f1)" by simp
      from comp_list [OF this n a b c] show ?thesis .
    next
      case F: False
      with "4.prems" eq r n k False T obtain tag f3
        where t: "readTag T f2 = Inr (tag, f3)"
          and l: "readCompound_loop (emplace name tag ct) f3 = Inr (v, f')"
        by (auto split: sum.splits)
      note a = "4.IH"(4) [OF r refl False n refl k T F t]
      note b = "4.IH"(5) [OF r refl False n refl k T F t refl l]
      from r k have "readID f = Inr (Some T, f1)" by simp
      from comp_entry [OF T F this n a b] show ?thesis .
    qed
  qed
qed

text \<open>A successful decode keeps the buffer and never moves the cursor back.\<close>

lemma readI8_mono: "readI8 f = Inr (v, f') \<Longrightarrow> data f' = data f \<and> pos f \<le> pos f'"
  by (auto dest!: readI8_Inr)

lemma readI32_mono: "readI32 f = Inr (v, f') \<Longrightarrow> data f' = data f \<and> pos f \<le> pos f'"
  by (auto dest!: readI32_Inr)

lemma readI64_mono: "readI64 f = Inr (v, f') \<Longrightarrow> data f' = data f \<and> pos f \<le> pos f'"
  by (auto dest!: readI64_Inr)

lemma array_loop_readI8_mono:
  "array_loop readI8 i n acc f = Inr (a, f') \<Longrightarrow> data f' = data f \<and> pos f \<le> pos f'"
  by (erule array_loop_mono [rotated]) (rule readI8_mono)

lemma array_loop_readI32_mono:
  "array_loop readI32 i n acc f = Inr (a, f') \<Longrightarrow> data f' = data f \<and> pos f \<le> pos f'"
  by (erule array_loop_mono [rotated]) (rule readI32_mono)

lemma array_loop_readI64_mono:
  "array_loop readI64 i n acc f = Inr (a, f') \<Longrightarrow> data f' = data f \<and> pos f \<le> pos f'"
  by (erule array_loop_mono [rotated]) (rule readI64_mono)

lemma decodes_mono:
  "decodes T f v f' \<Longrightarrow> data f' = data f \<and> pos f \<le> pos f'"
  "list_decodes T i n list f v f' \<Longrightarrow> data f' = data f \<and> pos f \<le> pos f'"
  "compound_decodes ct f v f' \<Longrightarrow> data f' = data f \<and> pos f < pos f' \<and> pos f < length (data f)"
  by (induction rule: decodes_list_decodes_compound_decodes.inducts)
    (auto dest!: readI8_Inr readI16_Inr readI32_Inr readI64_Inr readString_Inr readID_Inr
       array_loop_readI8_mono array_loop_readI32_mono array_loop_readI64_mono)

lemma readTag_mono:
  "readTag T f = Inr (v, f') \<Longrightarrow> data f' = data f \<and> pos f \<le> pos f'"
  by (rule decodes_mono(1) [OF decodes_complete(1)])

section \<open>Notions used to state the claims\<close>

text \<open>
  \<open>ordered_by_key t\<close>: every compound in the tree \<open>t\<close>, at any depth, enumerates its
  entries in strictly increasing order of their keys.
\<close>

fun ordered_by_key :: "Tag \<Rightarrow> bool" where
  "ordered_by_key (CompoundTag m) =
     (sorted_wrt (<) (map fst m) \<and> (\<forall>e \<in> set m. ordered_by_key (snd e)))"
| "ordered_by_key (ListTag list) = (\<forall>x \<in> set list. ordered_by_key x)"
| "ordered_by_key _ = True"

text \<open>\<open>append_bytes f s\<close>: the same cursor over the buffer with the bytes \<open>s\<close> appended.\<close>

definition append_bytes :: "NBTFile \<Rightarrow> byte list \<Rightarrow> NBTFile" where
  "append_bytes f s = f\<lparr>data := data f @ s\<rparr>"

text \<open>
  The kind bytes that a call reads, in the order in which it reads them, up to the point
  where it returns: \<open>kinds_read T f\<close> for \<open>readTag T f\<close> (a list reads the kind of its
  elements, a compound the kind of each entry and the End byte), \<open>kinds_read_list\<close> for
  the loop of a list, \<open>kinds_read_compound\<close> for the loop of a compound, and
  \<open>kinds_read_by_read\<close> for \<^verbatim>\<open>read\<close>, which reads the kind of the root first. They follow
  the decoder's control flow, and take the values and cursors from the decoder itself.
\<close>

function kinds_read :: "ID \<Rightarrow> NBTFile \<Rightarrow> byte list"
  and kinds_read_list :: "ID \<Rightarrow> nat \<Rightarrow> nat \<Rightarrow> NBTFile \<Rightarrow> byte list"
  and kinds_read_compound :: "NBTFile \<Rightarrow> byte list"
where
  "kinds_read T f =
     (if T = ID_LIST then
        (case readI8 f of Inl e \<Rightarrow> []
         | Inr (i8, f1) \<Rightarrow>
             i8 # (case static_cast_ID i8 of None \<Rightarrow> []
                   | Some E \<Rightarrow>
                       (case readI32 f1 of Inl e \<Rightarrow> []
                        | Inr (len, f2) \<Rightarrow> kinds_read_list E 0 (size_t_of_i32 len) f2)))
      else if T = ID_COMPOUND then kinds_read_compound f
      else [])"
| "kinds_read_list T i n f =
     (if i < n then
        kinds_read T f @
          (case readTag T f of Inl e \<Rightarrow> []
           | Inr (v, f1) \<Rightarrow> kinds_read_list T (i + 1) n f1)
      else [])"
| "kinds_read_compound f =
     (case readI8 f of Inl e \<Rightarrow> []
      | Inr (i8, f1) \<Rightarrow>
          i8 # (if static_cast_ID i8 = Some ID_END then []
                else (case readString f1 of Inl e \<Rightarrow> []
                      | Inr (name, f2) \<Rightarrow>
                          (case static_cast_ID i8 of None \<Rightarrow> []
                           | Some T \<Rightarrow>
                               if T = ID_LIST then
                                 kinds_read ID_LIST f2 @
                                   (case readTag ID_LIST f2 of Inl e \<Rightarrow> []
                                    | Inr (tag, f3) \<Rightarrow>
                                        kinds_read ID_COMPOUND f3 @
                                          (case readTag ID_COMPOUND f3 of Inl e \<Rightarrow> []
                                           | Inr (tag', f4) \<Rightarrow> kinds_read_compound f4))
                               else
                                 kinds_read T f2 @
                                   (case readTag T f2 of Inl e \<Rightarrow> []
                                    | Inr (tag, f3) \<Rightarrow> kinds_read_compound f3)))))"
  by pat_completeness auto

termination kinds_read
proof (relation "inv_image (less_than <*lex*> less_than)
     (\<lambda>x. case x of Inl (T, f) \<Rightarrow> (length (data f) - pos f, 1)
          | Inr (Inl (T, i, n, f)) \<Rightarrow> (length (data f) - pos f, 2 + (n - i))
          | Inr (Inr f) \<Rightarrow> (length (data f) - pos f, 0))", goal_cases)
  case 1
  show ?case by (intro wf_inv_image wf_lex_prod wf_less_than)
qed (auto dest!: readI8_Inr readI32_Inr readString_Inr readTag_mono)

declare kinds_read.simps [simp del] kinds_read_list.simps [simp del]
  kinds_read_compound.simps [simp del]

definition kinds_read_by_read :: "byte list \<Rightarrow> byte list" where
  "kinds_read_by_read d =
     (case readI8 \<lparr>data = d, pos = 0\<rparr> of Inl e \<Rightarrow> []
      | Inr (i8, f1) \<Rightarrow>
          i8 # (if static_cast_ID i8 \<noteq> Some ID_COMPOUND then []
                else (case readString f1 of Inl e \<Rightarrow> []
                      | Inr (name, f2) \<Rightarrow> kinds_read ID_COMPOUND f2)))"

section \<open>Lemmas\<close>

subsection \<open>Evaluation on concrete buffers\<close>

lemmas eval_defs =
  read_def readID_def readI8_def readI16_def readI32_def readI64_def readF32_def readF64_def
  next_byte_def readString_def subspan_def dynamic_extent_def size_t_of_i16_def
  size_t_of_i32_def static_cast_ID_def bit_cast_def word_rcat_def moved_from_def
  vector_max_size_def
  readTag.simps readListTag.simps readListTag_loop.simps readCompound_loop.simps
  array_loop.simps

lemmas eval_kinds = kinds_read_by_read_def kinds_read.simps kinds_read_list.simps
  kinds_read_compound.simps

subsection \<open>The map of a compound\<close>

lemma emplace_set: "set (emplace name tag m) \<subseteq> insert (name, tag) (set m)"
  by (induction m) (auto split: if_splits)

lemma emplace_keys: "fst ` set (emplace name tag m) = insert name (fst ` set m)"
  by (induction m) (force split: if_splits)+

lemma emplace_sorted:
  "sorted_wrt (<) (map fst m) \<Longrightarrow> sorted_wrt (<) (map fst (emplace name tag m))"
proof (induction m)
  case Nil
  then show ?case by simp
next
  case (Cons e m)
  obtain k v where e: "e = (k, v)" by (cases e)
  from Cons.prems have m: "sorted_wrt (<) (map fst m)" and k: "\<forall>x \<in> fst ` set m. k < x"
    by (auto simp: e)
  show ?case
  proof (cases "name = k")
    case True
    with Cons.prems show ?thesis by (simp add: e)
  next
    case False
    show ?thesis
    proof (cases "name < k")
      case True
      with False Cons.prems k show ?thesis by (auto simp: e)
    next
      case F: False
      with False have "k < name" by auto
      with False F k Cons.IH [OF m] show ?thesis
        using emplace_keys [of name tag m] by (auto simp: e)
    qed
  qed
qed

lemma emplace_ordered:
  "ordered_by_key (CompoundTag m) \<Longrightarrow> ordered_by_key tag \<Longrightarrow>
     ordered_by_key (CompoundTag (emplace name tag m))"
  using emplace_set [of name tag m] by (auto simp: emplace_sorted)

lemma decodes_ordered:
  "decodes T f v f' \<Longrightarrow> ordered_by_key v"
  "list_decodes T i n list f v f' \<Longrightarrow> \<forall>x \<in> set list. ordered_by_key x \<Longrightarrow> ordered_by_key v"
  "compound_decodes ct f v f' \<Longrightarrow> ordered_by_key (CompoundTag ct) \<Longrightarrow> ordered_by_key v"
proof (induction rule: decodes_list_decodes_compound_decodes.inducts)
  case (comp_list f f1 name f2 tag f3 tag' f4 ct v f')
  then show ?case by (simp only: emplace_ordered)
next
  case (comp_entry T f f1 name f2 tag f3 ct v f')
  then show ?case by (simp only: emplace_ordered)
qed simp_all

text \<open>
  Looking a name up in a \<^verbatim>\<open>std::map\<close> is \<open>map_of\<close> on its list of entries.
\<close>

lemma map_of_emplace:
  "sorted_wrt (<) (map fst m) \<Longrightarrow>
     map_of (emplace name tag m) k =
       (case map_of m k of Some old \<Rightarrow> Some old
        | None \<Rightarrow> if k = name then Some tag else None)"
proof (induction m)
  case Nil
  then show ?case by simp
next
  case (Cons e m)
  obtain k' v' where e: "e = (k', v')" by (cases e)
  from Cons.prems have m: "sorted_wrt (<) (map fst m)" and lt: "\<forall>x \<in> fst ` set m. k' < x"
    by (auto simp: e)
  have none: "map_of m name = None" if "name < k'"
  proof -
    from that lt have "name \<notin> fst ` set m" by auto
    then show ?thesis by (simp add: map_of_eq_None_iff)
  qed
  from Cons.IH [OF m] none show ?case
    by (auto simp: e split: option.splits)
qed

lemma compound_decodes_keeps:
  "decodes T f v f' \<Longrightarrow> True"
  "list_decodes T i n list f v f' \<Longrightarrow> True"
  "compound_decodes ct f v f' \<Longrightarrow> sorted_wrt (<) (map fst ct) \<Longrightarrow>
     \<exists>m. v = CompoundTag m \<and> (\<forall>k old. map_of ct k = Some old \<longrightarrow> map_of m k = Some old)"
proof (induction rule: decodes_list_decodes_compound_decodes.inducts)
  case (comp_list f f1 name f2 tag f3 tag' f4 ct v f')
  let ?c1 = "emplace name tag ct" and ?c2 = "emplace (moved_from name) tag' (emplace name tag ct)"
  from comp_list.prems have s1: "sorted_wrt (<) (map fst ?c1)" by (rule emplace_sorted)
  then have s2: "sorted_wrt (<) (map fst ?c2)" by (rule emplace_sorted)
  from comp_list.IH(3) [OF s2] obtain m where v: "v = CompoundTag m"
    and k: "\<forall>k old. map_of ?c2 k = Some old \<longrightarrow> map_of m k = Some old" by blast
  have "map_of m k = Some old" if "map_of ct k = Some old" for k old
  proof -
    from that have "map_of ?c1 k = Some old" by (simp add: map_of_emplace [OF comp_list.prems])
    then have "map_of ?c2 k = Some old" by (simp add: map_of_emplace [OF s1])
    with k show ?thesis by blast
  qed
  with v show ?case by blast
next
  case (comp_entry T f f1 name f2 tag f3 ct v f')
  let ?c1 = "emplace name tag ct"
  from comp_entry.prems have s1: "sorted_wrt (<) (map fst ?c1)" by (rule emplace_sorted)
  from comp_entry.IH(2) [OF s1] obtain m where v: "v = CompoundTag m"
    and k: "\<forall>k old. map_of ?c1 k = Some old \<longrightarrow> map_of m k = Some old" by blast
  have "map_of m k = Some old" if "map_of ct k = Some old" for k old
  proof -
    from that have "map_of ?c1 k = Some old" by (simp add: map_of_emplace [OF comp_entry.prems])
    with k show ?thesis by blast
  qed
  with v show ?case by blast
qed simp_all

lemma compound_decodes_any_map:
  "decodes T f v f' \<Longrightarrow> True"
  "list_decodes T i n list f v f' \<Longrightarrow> True"
  "compound_decodes ct f v f' \<Longrightarrow> \<exists>m'. compound_decodes ct' f (CompoundTag m') f'"
proof (induction arbitrary: and and ct' rule: decodes_list_decodes_compound_decodes.inducts)
  case (comp_end f f1 ct)
  then show ?case by (blast intro: decodes_list_decodes_compound_decodes.comp_end)
next
  case (comp_list f f1 name f2 tag f3 tag' f4 ct v f')
  from comp_list.IH(3) [of "emplace (moved_from name) tag' (emplace name tag ct')"]
    comp_list.hyps show ?case
    by (blast intro: decodes_list_decodes_compound_decodes.comp_list)
next
  case (comp_entry T f f1 name f2 tag f3 ct v f')
  from comp_entry.IH(2) [of "emplace name tag ct'"] comp_entry.hyps show ?case
    by (blast intro: decodes_list_decodes_compound_decodes.comp_entry)
qed simp_all

lemma readTag_COMPOUND_is_compound:
  "readTag ID_COMPOUND f = Inr (v, f') \<Longrightarrow> \<exists>m. v = CompoundTag m"
proof -
  assume "readTag ID_COMPOUND f = Inr (v, f')"
  then have "compound_decodes [] f v f'"
    by (auto dest!: decodes_complete(1) elim: decodes.cases)
  from compound_decodes_keeps(3) [OF this] show ?thesis by auto
qed

lemma static_cast_ID_COMPOUND: "(static_cast_ID w = Some ID_COMPOUND) = (w = 10)"
  by (simp add: static_cast_ID_def)

subsection \<open>Bytes appended to the buffer\<close>

lemma append_bytes_simps [simp]:
  "data (append_bytes f s) = data f @ s" "pos (append_bytes f s) = pos f"
  "append_bytes (f\<lparr>pos := p\<rparr>) s = (append_bytes f s)\<lparr>pos := p\<rparr>"
  by (simp_all add: append_bytes_def)

lemma next_byte_append_bytes:
  "next_byte f = Inr (b, f') \<Longrightarrow> next_byte (append_bytes f s) = Inr (b, append_bytes f' s)"
  by (auto simp: next_byte_def nth_append split: if_splits)

lemma readI8_append_bytes:
  "readI8 f = Inr (b, f') \<Longrightarrow> readI8 (append_bytes f s) = Inr (b, append_bytes f' s)"
  by (auto simp: readI8_def next_byte_def nth_append split: if_splits)

lemma readID_append_bytes:
  "readID f = Inr (k, f') \<Longrightarrow> readID (append_bytes f s) = Inr (k, append_bytes f' s)"
  by (auto simp: readID_def readI8_def next_byte_def nth_append split: if_splits)

lemma readI16_append_bytes:
  "readI16 f = Inr (v, f') \<Longrightarrow> readI16 (append_bytes f s) = Inr (v, append_bytes f' s)"
  by (auto simp: readI16_def next_byte_def nth_append split: if_splits)

lemma readI32_append_bytes:
  "readI32 f = Inr (v, f') \<Longrightarrow> readI32 (append_bytes f s) = Inr (v, append_bytes f' s)"
  by (auto simp: readI32_def next_byte_def nth_append split: if_splits)

lemma readI64_append_bytes:
  "readI64 f = Inr (v, f') \<Longrightarrow> readI64 (append_bytes f s) = Inr (v, append_bytes f' s)"
  by (auto simp: readI64_def next_byte_def nth_append split: if_splits)

lemma readString_append_bytes:
  "readString f = Inr (str, f') \<Longrightarrow> pos f' < length (data f) \<Longrightarrow>
     readString (append_bytes f s) = Inr (str, append_bytes f' s)"
proof -
  assume r: "readString f = Inr (str, f')" and p: "pos f' < length (data f)"
  from r obtain sz f1 where i: "readI16 f = Inr (sz, f1)"
    by (auto simp: readString_def split: sum.splits)
  note e = readI16_append_bytes [OF i, of s] and f1 = readI16_Inr [OF i]
  let ?n = "size_t_of_i16 sz"
  from r i have b: "subspan (data f1) (pos f1) ?n = Some str"
    and f': "f' = f1\<lparr>pos := pos f1 + length str\<rparr>"
    by (auto simp: readString_def split: if_splits option.splits)
  from b p f' f1 have n: "?n \<le> length (data f) - pos f1" and le: "pos f1 \<le> length (data f)"
    and bs: "str = take ?n (drop (pos f1) (data f))" and d: "?n \<noteq> dynamic_extent"
    by (auto simp: subspan_def split: if_splits)
  from n le have "pos f1 + ?n \<le> length (data f) + length s" by simp
  moreover have "(pos f1 + ?n) mod 2 ^ 64 \<le> pos f1 + ?n" by simp
  ultimately have m: "\<not> (pos f1 + ?n) mod 2 ^ 64 > length (data f) + length s" by simp
  from n le d bs f1 have "subspan (data f1 @ s) (pos f1) ?n = Some str"
    by (simp add: subspan_def)
  with e m f1 f' show ?thesis
    by (simp add: readString_def)
qed

lemma array_loop_done: "\<not> i < n \<Longrightarrow> array_loop rd i n acc f = Inr (acc, f)"
  by (simp add: array_loop.simps)

lemma array_loop_step:
  "i < n \<Longrightarrow> array_loop rd i n acc f =
     (case rd f of Inl e \<Rightarrow> Inl e | Inr (v, f1) \<Rightarrow> array_loop rd (i + 1) n (acc @ [v]) f1)"
  by (simp add: array_loop.simps [of rd i n acc f])

lemma array_loop_append_bytes:
  "(\<And>f v f'. rd f = Inr (v, f') \<Longrightarrow> rd (append_bytes f s) = Inr (v, append_bytes f' s)) \<Longrightarrow>
   array_loop rd i n acc f = Inr (a, f') \<Longrightarrow>
   array_loop rd i n acc (append_bytes f s) = Inr (a, append_bytes f' s)"
proof (induction rd i n acc f rule: array_loop.induct)
  case (1 rd i n acc f)
  show ?case
  proof (cases "i < n")
    case False
    with "1.prems"(2) show ?thesis
      by (simp add: array_loop_done)
  next
    case True
    with "1.prems"(2) obtain v f1 where r: "rd f = Inr (v, f1)"
      and l: "array_loop rd (i + 1) n (acc @ [v]) f1 = Inr (a, f')"
      by (auto simp: array_loop_step split: sum.splits)
    from "1.IH" [OF True r refl "1.prems"(1) l] "1.prems"(1) [OF r] True show ?thesis
      by (simp add: array_loop_step)
  qed
qed

lemma array_loop_readI8_append_bytes:
  "array_loop readI8 i n acc f = Inr (a, f') \<Longrightarrow>
     array_loop readI8 i n acc (append_bytes f s) = Inr (a, append_bytes f' s)"
  by (erule array_loop_append_bytes [rotated]) (rule readI8_append_bytes)

lemma array_loop_readI32_append_bytes:
  "array_loop readI32 i n acc f = Inr (a, f') \<Longrightarrow>
     array_loop readI32 i n acc (append_bytes f s) = Inr (a, append_bytes f' s)"
  by (erule array_loop_append_bytes [rotated]) (rule readI32_append_bytes)

lemma array_loop_readI64_append_bytes:
  "array_loop readI64 i n acc f = Inr (a, f') \<Longrightarrow>
     array_loop readI64 i n acc (append_bytes f s) = Inr (a, append_bytes f' s)"
  by (erule array_loop_append_bytes [rotated]) (rule readI64_append_bytes)

lemma decodes_append_bytes:
  "decodes T f v f' \<Longrightarrow> pos f' < length (data f) \<Longrightarrow> decodes T (append_bytes f s) v (append_bytes f' s)"
  "list_decodes T i n list f v f' \<Longrightarrow> pos f' < length (data f) \<Longrightarrow>
     list_decodes T i n list (append_bytes f s) v (append_bytes f' s)"
  "compound_decodes ct f v f' \<Longrightarrow> compound_decodes ct (append_bytes f s) v (append_bytes f' s)"
proof (induction rule: decodes_list_decodes_compound_decodes.inducts)
  case (dec_LIST f E f1 len f2 v f')
  from readID_Inr [OF dec_LIST(1)] readI32_Inr [OF dec_LIST(2)] dec_LIST(5)
  have "pos f' < length (data f2)" by simp
  from dec_LIST(4) [OF this] readID_append_bytes [OF dec_LIST(1)] readI32_append_bytes [OF dec_LIST(2)]
  show ?case by (rule decodes_list_decodes_compound_decodes.dec_LIST [rotated 2])
next
  case (list_step i n T f x f1 list v f')
  from decodes_mono(1) [OF list_step(2)] decodes_mono(2) [OF list_step(3)] list_step(6)
  have a: "pos f1 < length (data f)" and b: "pos f' < length (data f1)" by simp_all
  from list_step(1) list_step(4) [OF a] list_step(5) [OF b]
  show ?case by (rule decodes_list_decodes_compound_decodes.list_step)
next
  case (comp_list f f1 name f2 tag f3 tag' f4 ct v f')
  note m1 = readID_Inr [OF comp_list(1)] and m2 = readString_Inr [OF comp_list(2)]
    and m3 = decodes_mono(1) [OF comp_list(3)] and m4 = decodes_mono(1) [OF comp_list(4)]
    and m5 = decodes_mono(3) [OF comp_list(5)]
  from m1 m2 m3 m4 m5 have a: "pos f2 < length (data f1)" and b: "pos f3 < length (data f2)"
    and c: "pos f4 < length (data f3)" by simp_all
  from readID_append_bytes [OF comp_list(1)] readString_append_bytes [OF comp_list(2) a]
    comp_list(6) [OF b] comp_list(7) [OF c] comp_list(8)
  show ?case by (rule decodes_list_decodes_compound_decodes.comp_list)
next
  case (comp_entry T f f1 name f2 tag f3 ct v f')
  note m1 = readID_Inr [OF comp_entry(3)] and m2 = readString_Inr [OF comp_entry(4)]
    and m3 = decodes_mono(1) [OF comp_entry(5)] and m5 = decodes_mono(3) [OF comp_entry(6)]
  from m1 m2 m3 m5 have a: "pos f2 < length (data f1)" and b: "pos f3 < length (data f2)"
    by simp_all
  from comp_entry(1,2) readID_append_bytes [OF comp_entry(3)] readString_append_bytes [OF comp_entry(4) a]
    comp_entry(7) [OF b] comp_entry(8)
  show ?case by (rule decodes_list_decodes_compound_decodes.comp_entry)
qed (auto intro!: decodes_list_decodes_compound_decodes.intros
       dest: readI8_append_bytes readI16_append_bytes readI32_append_bytes readI64_append_bytes readID_append_bytes
         readString_append_bytes array_loop_readI8_append_bytes array_loop_readI32_append_bytes
         array_loop_readI64_append_bytes)

subsection \<open>Loops and sizes\<close>

lemma readListTag_loop_done:
  "\<not> i < n \<Longrightarrow> readListTag_loop T i n list f = Inr (ListTag list, f)"
  by (simp add: readListTag_loop.simps)

lemma readListTag_loop_step:
  "i < n \<Longrightarrow> readListTag_loop T i n list f =
     (case readTag T f of Inl e \<Rightarrow> Inl e
      | Inr (v, f1) \<Rightarrow> readListTag_loop T (i + 1) n (list @ [v]) f1)"
  by (simp add: readListTag_loop.simps [of T i n list f])

lemma readListTag_loop_END:
  "readListTag_loop ID_END i n list f = Inr (ListTag (list @ replicate (n - i) EndTag), f)"
proof (induction "n - i" arbitrary: i list)
  case 0
  then show ?case by (simp add: readListTag_loop_done)
next
  case (Suc k)
  then have i: "i < n" and k: "k = n - (i + 1)" by simp_all
  from Suc.hyps(1) [OF k, of "list @ [EndTag]"] i Suc.hyps(2) [symmetric] show ?case
    by (simp add: readListTag_loop_step readTag.simps replicate_append_same)
qed

lemma mod_of_negative:
  fixes x :: int and N :: nat
  assumes "- int N \<le> x" "x < 0"
  shows "nat (x mod int N) = N - nat (- x)"
proof -
  from assms have "(x + int N) mod int N = x + int N"
    by (intro mod_pos_pos_trivial) simp_all
  then have m: "x mod int N = x + int N" by simp
  have "nat (x + int N) = N - nat (- x)" using assms by arith
  then show ?thesis unfolding m .
qed

lemma size_t_of_i32_negative:
  assumes "sint len < 0"
  shows "size_t_of_i32 len = 2 ^ 64 - nat (- sint len)" "2 ^ 63 \<le> size_t_of_i32 len"
proof -
  from sint_ge [of len] have g: "- (2 ^ 31) \<le> sint len" by simp
  with assms mod_of_negative [of "2 ^ 64" "sint len"]
  show e: "size_t_of_i32 len = 2 ^ 64 - nat (- sint len)" by (simp add: size_t_of_i32_def)
  from g have "nat (- sint len) \<le> 2 ^ 31" by simp
  then show "2 ^ 63 \<le> size_t_of_i32 len" unfolding e by simp
qed

lemma size_t_of_i16_negative:
  assumes "sint sz < 0"
  shows "size_t_of_i16 sz = 2 ^ 64 - nat (- sint sz)" "nat (- sint sz) \<le> 2 ^ 15"
proof -
  from sint_ge [of sz] have g: "- (2 ^ 15) \<le> sint sz" by simp
  with assms mod_of_negative [of "2 ^ 64" "sint sz"]
  show "size_t_of_i16 sz = 2 ^ 64 - nat (- sint sz)" by (simp add: size_t_of_i16_def)
  from g show "nat (- sint sz) \<le> 2 ^ 15" by simp
qed

lemma array_loop_consumes:
  "\<forall>f v f'. rd f = Inr (v, f') \<longrightarrow>
      data f' = data f \<and> pos f < pos f' \<and> pos f' \<le> length (data f) \<Longrightarrow>
   array_loop rd i n acc f = Inr (a, f') \<Longrightarrow> pos f \<le> length (data f) \<Longrightarrow>
   pos f + (n - i) \<le> pos f' \<and> pos f' \<le> length (data f)"
proof (induction rd i n acc f rule: array_loop.induct)
  case (1 rd i n acc f)
  show ?case
  proof (cases "i < n")
    case False
    with "1.prems"(2,3) show ?thesis by (simp add: array_loop_done)
  next
    case True
    with "1.prems"(2) obtain v f1 where r: "rd f = Inr (v, f1)"
      and l: "array_loop rd (i + 1) n (acc @ [v]) f1 = Inr (a, f')"
      by (auto simp: array_loop_step split: sum.splits)
    from "1.prems"(1) r
    have s: "data f1 = data f \<and> pos f < pos f1 \<and> pos f1 \<le> length (data f)" by blast
    then have "pos f1 \<le> length (data f1)" by simp
    from "1.IH" [OF True r refl "1.prems"(1) l this]
    have a: "pos f1 + (n - (i + 1)) \<le> pos f'" and b: "pos f' \<le> length (data f1)"
      by simp_all
    from s have c: "pos f < pos f1" and d: "data f1 = data f" by simp_all
    from a c True have "pos f + (n - i) \<le> pos f'" by arith
    with b d show ?thesis by simp
  qed
qed

lemma vector_max_size_less: "vector_max_size sizeof_T < 2 ^ 63"
proof -
  have "vector_max_size sizeof_T \<le> 2 ^ 63 - 1"
    unfolding vector_max_size_def by (rule div_le_dividend)
  also have "\<dots> < (2 ^ 63 :: nat)" by simp
  finally show ?thesis .
qed

lemma readI8_consumes:
  "readI8 f = Inr (v, f') \<Longrightarrow> data f' = data f \<and> pos f < pos f' \<and> pos f' \<le> length (data f)"
  by (auto dest!: readI8_Inr)

lemma readI32_consumes:
  "readI32 f = Inr (v, f') \<Longrightarrow> data f' = data f \<and> pos f < pos f' \<and> pos f' \<le> length (data f)"
  by (auto dest!: readI32_Inr)

lemma readI64_consumes:
  "readI64 f = Inr (v, f') \<Longrightarrow> data f' = data f \<and> pos f < pos f' \<and> pos f' \<le> length (data f)"
  by (auto dest!: readI64_Inr)

lemma array_loop_readI8_consumes:
  "array_loop readI8 i n acc f = Inr (a, f') \<Longrightarrow> pos f \<le> length (data f) \<Longrightarrow>
     pos f + (n - i) \<le> pos f' \<and> pos f' \<le> length (data f)"
  by (erule array_loop_consumes [rotated]) (auto dest: readI8_consumes)

lemma array_loop_readI32_consumes:
  "array_loop readI32 i n acc f = Inr (a, f') \<Longrightarrow> pos f \<le> length (data f) \<Longrightarrow>
     pos f + (n - i) \<le> pos f' \<and> pos f' \<le> length (data f)"
  by (erule array_loop_consumes [rotated]) (auto dest: readI32_consumes)

lemma array_loop_readI64_consumes:
  "array_loop readI64 i n acc f = Inr (a, f') \<Longrightarrow> pos f \<le> length (data f) \<Longrightarrow>
     pos f + (n - i) \<le> pos f' \<and> pos f' \<le> length (data f)"
  by (erule array_loop_consumes [rotated]) (auto dest: readI64_consumes)

lemma decodes_consumes:
  "decodes T f v f' \<Longrightarrow>
     (pos f \<le> length (data f) \<longrightarrow> pos f' \<le> length (data f))
     \<and> (T \<noteq> ID_END \<longrightarrow> pos f < pos f' \<and> pos f' \<le> length (data f))"
  "list_decodes T i n list f v f' \<Longrightarrow>
     (pos f \<le> length (data f) \<longrightarrow> pos f' \<le> length (data f))
     \<and> (T \<noteq> ID_END \<longrightarrow> pos f + (n - i) \<le> pos f')"
  "compound_decodes ct f v f' \<Longrightarrow> pos f' \<le> length (data f)"
proof (induction rule: decodes_list_decodes_compound_decodes.inducts)
  case (dec_BYTE_ARRAY f len f1 a8 f')
  from readI32_Inr [OF dec_BYTE_ARRAY(1)] array_loop_readI8_consumes [OF dec_BYTE_ARRAY(3)]
  show ?case by simp
next
  case (dec_INT_ARRAY f len f1 a32 f')
  from readI32_Inr [OF dec_INT_ARRAY(1)] array_loop_readI32_consumes [OF dec_INT_ARRAY(3)]
  show ?case by simp
next
  case (dec_LONG_ARRAY f len f1 a64 f')
  from readI32_Inr [OF dec_LONG_ARRAY(1)] array_loop_readI64_consumes [OF dec_LONG_ARRAY(3)]
  show ?case by simp
next
  case (dec_LIST f E f1 len f2 v f')
  from readID_Inr [OF dec_LIST(1)] readI32_Inr [OF dec_LIST(2)] dec_LIST(4)
    decodes_mono(2) [OF dec_LIST(3)]
  show ?case by simp
next
  case (dec_COMPOUND f v f')
  from dec_COMPOUND(2) decodes_mono(3) [OF dec_COMPOUND(1)] show ?case by simp
next
  case (list_step i n T f x f1 list v f')
  from list_step(1,4,5) decodes_mono(1) [OF list_step(2)] decodes_mono(2) [OF list_step(3)]
  show ?case by auto
next
  case (comp_list f f1 name f2 tag f3 tag' f4 ct v f')
  from comp_list(8) decodes_mono(1) [OF comp_list(3)] decodes_mono(1) [OF comp_list(4)]
    readID_Inr [OF comp_list(1)] readString_Inr [OF comp_list(2)]
  show ?case by simp
next
  case (comp_entry T f f1 name f2 tag f3 ct v f')
  from comp_entry(8) decodes_mono(1) [OF comp_entry(5)]
    readID_Inr [OF comp_entry(3)] readString_Inr [OF comp_entry(4)]
  show ?case by simp
qed (auto dest!: readI8_Inr readI16_Inr readI32_Inr readI64_Inr readString_Inr readID_Inr)

subsection \<open>Kind bytes\<close>

lemma byte_le_12:
  "(w :: 8 word) \<le> 12 \<Longrightarrow> w = 0 \<or> w = 1 \<or> w = 2 \<or> w = 3 \<or> w = 4 \<or> w = 5 \<or> w = 6
     \<or> w = 7 \<or> w = 8 \<or> w = 9 \<or> w = 10 \<or> w = 11 \<or> w = 12"
proof -
  assume "w \<le> 12"
  then have "unat w \<le> 12" by (simp add: word_le_nat_alt)
  then have "unat w = 0 \<or> unat w = 1 \<or> unat w = 2 \<or> unat w = 3 \<or> unat w = 4 \<or> unat w = 5
     \<or> unat w = 6 \<or> unat w = 7 \<or> unat w = 8 \<or> unat w = 9 \<or> unat w = 10 \<or> unat w = 11
     \<or> unat w = 12"
    by presburger
  then show ?thesis by (simp add: word_unat_eq_iff)
qed

lemma static_cast_ID_None: "(static_cast_ID w = None) = (12 < w)"
proof
  assume "static_cast_ID w = None"
  then have "\<not> w \<le> 12" by (auto simp: static_cast_ID_def dest!: byte_le_12 split: if_splits)
  then show "12 < w" by simp
next
  assume "12 < w"
  then show "static_cast_ID w = None" by (auto simp: static_cast_ID_def)
qed

lemma kinds_read_unrecognised:
  "\<exists>w \<in> set (kinds_read T f). 12 < w \<Longrightarrow> \<exists>e. readTag T f = Inl e"
  "\<exists>w \<in> set (kinds_read_list T i n f). 12 < w \<Longrightarrow> \<exists>e. readListTag_loop T i n list f = Inl e"
  "\<exists>w \<in> set (kinds_read_compound f). 12 < w \<Longrightarrow> \<exists>e. readCompound_loop ct f = Inl e"
proof (induction T f and T i n f and f arbitrary: and list and ct
    rule: kinds_read_kinds_read_list_kinds_read_compound.induct)
  case (1 T f)
  note ks = kinds_read.simps [of T f]
  show ?case
  proof (cases "T = ID_LIST")
    case True
    with "1.prems" ks obtain i8 f1 where r: "readI8 f = Inr (i8, f1)"
      by (auto split: sum.splits)
    show ?thesis
    proof (cases "static_cast_ID i8")
      case None
      with True r show ?thesis by (simp add: readTag.simps readID_def)
    next
      case (Some E)
      then have "\<not> 12 < i8" by (simp flip: static_cast_ID_None)
      with "1.prems" ks True r Some obtain len f2 where l: "readI32 f1 = Inr (len, f2)"
        and bad: "\<exists>w \<in> set (kinds_read_list E 0 (size_t_of_i32 len) f2). 12 < w"
        by (auto split: sum.splits)
      from "1.IH"(1) [OF True r refl Some l refl bad, of "[]"] True r Some l show ?thesis
        by (simp add: readTag.simps readID_def readListTag.simps)
    qed
  next
    case False
    show ?thesis
    proof (cases "T = ID_COMPOUND")
      case True
      with "1.prems" ks False have "\<exists>w \<in> set (kinds_read_compound f). 12 < w"
        by simp
      from "1.IH"(2) [OF False True this, of "[]"] True show ?thesis
        by (simp add: readTag.simps)
    next
      case F: False
      with "1.prems" ks False show ?thesis by simp
    qed
  qed
next
  case (2 T i n f)
  from "2.prems" have i: "i < n" by (auto simp: kinds_read_list.simps [of T i n f] split: if_splits)
  show ?case
  proof (cases "readTag T f")
    case (Inl e)
    with i show ?thesis by (simp add: readListTag_loop_step)
  next
    case (Inr p)
    obtain v f1 where p: "p = (v, f1)" by (cases p)
    with Inr have r: "readTag T f = Inr (v, f1)" by simp
    then have "\<not> (\<exists>e. readTag T f = Inl e)" by simp
    with "2.IH"(1) [OF i] have "\<not> (\<exists>w \<in> set (kinds_read T f). 12 < w)" by blast
    with "2.prems" i r have "\<exists>w \<in> set (kinds_read_list T (i + 1) n f1). 12 < w"
      by (auto simp: kinds_read_list.simps [of T i n f])
    from "2.IH"(2) [OF i r refl this, of "list @ [v]"] i r show ?thesis
      by (simp add: readListTag_loop_step)
  qed
next
  case (3 f)
  have "\<exists>i8 f1. readI8 f = Inr (i8, f1)"
  proof (cases "readI8 f")
    case (Inl e)
    with "3.prems" show ?thesis by (simp add: kinds_read_compound.simps [of f])
  next
    case (Inr p)
    then show ?thesis by (cases p) simp
  qed
  then obtain i8 f1 where r: "readI8 f = Inr (i8, f1)" by blast
  note eq = readCompound_loop.simps [of ct f] and ks = kinds_read_compound.simps [of f]
  show ?case
  proof (cases "static_cast_ID i8")
    case None
    with r show ?thesis by (auto simp: eq readID_def split: sum.splits)
  next
    case (Some T)
    then have ok: "\<not> 12 < i8" by (simp flip: static_cast_ID_None)
    with "3.prems" r Some have E: "static_cast_ID i8 \<noteq> Some ID_END"
      by (auto simp: ks)
    with Some have T: "T \<noteq> ID_END" by simp
    show ?thesis
    proof (cases "readString f1")
      case (Inl e)
      with r Some T show ?thesis by (simp add: eq readID_def)
    next
      case (Inr p)
      obtain name f2 where p: "p = (name, f2)" by (cases p)
      with Inr have n: "readString f1 = Inr (name, f2)" by simp
      show ?thesis
      proof (cases "T = ID_LIST")
        case True
        show ?thesis
        proof (cases "readTag ID_LIST f2")
          case (Inl e)
          with r Some T n True show ?thesis by (simp add: eq readID_def)
        next
          case (Inr q)
          obtain tag f3 where q: "q = (tag, f3)" by (cases q)
          with Inr have t: "readTag ID_LIST f2 = Inr (tag, f3)" by simp
          then have "\<not> (\<exists>e. readTag ID_LIST f2 = Inl e)" by simp
          with "3.IH"(1) [OF r refl E n refl Some True]
          have k1: "\<not> (\<exists>w \<in> set (kinds_read ID_LIST f2). 12 < w)" by blast
          show ?thesis
          proof (cases "readTag ID_COMPOUND f3")
            case (Inl e)
            with r Some T n True t show ?thesis by (simp add: eq readID_def)
          next
            case (Inr q')
            obtain tag' f4 where q': "q' = (tag', f4)" by (cases q')
            with Inr have t': "readTag ID_COMPOUND f3 = Inr (tag', f4)" by simp
            then have "\<not> (\<exists>e. readTag ID_COMPOUND f3 = Inl e)" by simp
            with "3.IH"(2) [OF r refl E n refl Some True t refl]
            have k2: "\<not> (\<exists>w \<in> set (kinds_read ID_COMPOUND f3). 12 < w)" by blast
            from "3.prems" r Some E n True t t' ok k1 k2
            have "\<exists>w \<in> set (kinds_read_compound f4). 12 < w" by (auto simp: ks)
            from "3.IH"(3) [OF r refl E n refl Some True t refl t' refl this,
                of "emplace (moved_from name) tag' (emplace name tag ct)"]
              r Some T n True t t'
            show ?thesis by (simp add: eq readID_def)
          qed
        qed
      next
        case False
        show ?thesis
        proof (cases "readTag T f2")
          case (Inl e)
          with r Some T n False show ?thesis by (simp add: eq readID_def)
        next
          case (Inr q)
          obtain tag f3 where q: "q = (tag, f3)" by (cases q)
          with Inr have t: "readTag T f2 = Inr (tag, f3)" by simp
          then have "\<not> (\<exists>e. readTag T f2 = Inl e)" by simp
          with "3.IH"(4) [OF r refl E n refl Some False]
          have k1: "\<not> (\<exists>w \<in> set (kinds_read T f2). 12 < w)" by blast
          from "3.prems" r Some E n False t ok k1
          have "\<exists>w \<in> set (kinds_read_compound f3). 12 < w" by (auto simp: ks)
          from "3.IH"(5) [OF r refl E n refl Some False t refl this, of "emplace name tag ct"]
            r Some T n False t
          show ?thesis by (simp add: eq readID_def)
        qed
      qed
    qed
  qed
qed

subsection \<open>Byte order\<close>

text \<open>
  The unsigned value of the word that \<^verbatim>\<open>std::bit_cast\<close> makes of a byte array, and the
  signed value of a word in terms of its unsigned value.
\<close>

lemma horner_sum_bytes_bound:
  "0 \<le> horner_sum uint 256 (bs :: byte list) \<and> horner_sum uint 256 bs < 256 ^ length bs"
proof (induction bs)
  case Nil
  show ?case by simp
next
  case (Cons b bs)
  have "0 \<le> uint b" "uint b < 256" using uint_lt2p [of b] by simp_all
  with Cons show ?case by simp
qed

lemma uint_bit_cast:
  "(256 :: int) ^ length bytes \<le> 2 ^ LENGTH('a) \<Longrightarrow>
     uint (bit_cast bytes :: 'a::len word) = horner_sum uint 256 bytes"
proof -
  assume le: "(256 :: int) ^ length bytes \<le> 2 ^ LENGTH('a)"
  have "(bit_cast bytes :: 'a word) = word_of_int (horner_sum uint 256 bytes)"
    unfolding bit_cast_def word_rcat_def comp_def by simp
  then have "uint (bit_cast bytes :: 'a word) = horner_sum uint 256 bytes mod 2 ^ LENGTH('a)"
    by (simp only: uint_word_of_int)
  also have "\<dots> = horner_sum uint 256 bytes"
    using horner_sum_bytes_bound [of bytes] le by (intro mod_pos_pos_trivial) simp_all
  finally show ?thesis .
qed

lemma sint_twos_complement:
  "sint (w :: 'a::len word) =
     (if uint w < 2 ^ (LENGTH('a) - 1) then uint w else uint w - 2 ^ LENGTH('a))"
proof -
  have S: "Suc (LENGTH('a) - 1) = LENGTH('a)" by simp
  have P: "(2 :: int) ^ LENGTH('a) = 2 * 2 ^ (LENGTH('a) - 1)"
    by (subst S [symmetric]) (simp only: power_Suc)
  have m: "sint w = (uint w + 2 ^ (LENGTH('a) - 1)) mod 2 ^ LENGTH('a) - 2 ^ (LENGTH('a) - 1)"
    using S by (simp add: sint_uint signed_take_bit_eq_take_bit_shift take_bit_eq_mod)
  have lt: "uint w < 2 ^ LENGTH('a)" by (rule uint_lt2p)
  have ge: "0 \<le> uint w" by simp
  show ?thesis
  proof (cases "uint w < 2 ^ (LENGTH('a) - 1)")
    case True
    then have "(uint w + 2 ^ (LENGTH('a) - 1)) mod 2 ^ LENGTH('a) = uint w + 2 ^ (LENGTH('a) - 1)"
      using ge P by (intro mod_pos_pos_trivial) simp_all
    with True m show ?thesis by simp
  next
    case False
    have "(uint w + 2 ^ (LENGTH('a) - 1)) mod 2 ^ LENGTH('a)
        = (uint w + 2 ^ (LENGTH('a) - 1) - 2 ^ LENGTH('a)) mod 2 ^ LENGTH('a)"
      by (simp only: mod_diff_right_eq [symmetric, of _ "2 ^ LENGTH('a)"] mod_self) simp
    also have "\<dots> = uint w + 2 ^ (LENGTH('a) - 1) - 2 ^ LENGTH('a)"
      using False lt P by (intro mod_pos_pos_trivial) simp_all
    finally show ?thesis using False m by simp
  qed
qed

lemma readI16_value:
  "pos f + 2 \<le> length (data f) \<Longrightarrow>
     readI16 f = Inr (bit_cast [data f ! (pos f + 1), data f ! pos f], f\<lparr>pos := pos f + 2\<rparr>)"
  by (simp add: readI16_def next_byte_def)

lemma readI32_value:
  "pos f + 4 \<le> length (data f) \<Longrightarrow>
     readI32 f = Inr (bit_cast [data f ! (pos f + 3), data f ! (pos f + 2),
                                data f ! (pos f + 1), data f ! pos f], f\<lparr>pos := pos f + 4\<rparr>)"
  by (simp add: readI32_def next_byte_def numeral_3_eq_3)

lemma readI64_value:
  "pos f + 8 \<le> length (data f) \<Longrightarrow>
     readI64 f = Inr (bit_cast [data f ! (pos f + 7), data f ! (pos f + 6),
                                data f ! (pos f + 5), data f ! (pos f + 4),
                                data f ! (pos f + 3), data f ! (pos f + 2),
                                data f ! (pos f + 1), data f ! pos f], f\<lparr>pos := pos f + 8\<rparr>)"
  by (simp add: readI64_def next_byte_def eval_nat_numeral)

subsection \<open>A name that is already in the map\<close>

lemma emplace_present:
  "sorted_wrt (<) (map fst m) \<Longrightarrow> name \<in> fst ` set m \<Longrightarrow> emplace name tag m = m"
proof (induction m)
  case Nil
  then show ?case by simp
next
  case (Cons e m)
  obtain k v where e: "e = (k, v)" by (cases e)
  from Cons.prems have m: "sorted_wrt (<) (map fst m)" and lt: "\<forall>x \<in> fst ` set m. k < x"
    by (auto simp: e)
  show ?case
  proof (cases "name = k")
    case True
    then show ?thesis by (simp add: e)
  next
    case False
    with Cons.prems have i: "name \<in> fst ` set m" by (auto simp: e)
    with lt have "k < name" by blast
    then have "\<not> name < k" by auto
    with False Cons.IH [OF m i] show ?thesis by (simp add: e)
  qed
qed

lemma emplace_twice:
  "sorted_wrt (<) (map fst m) \<Longrightarrow> emplace name tag' (emplace name tag m) = emplace name tag m"
  by (rule emplace_present) (simp_all add: emplace_sorted emplace_keys)

lemma readCompound_loop_entry:
  "readID f = Inr (Some T, f1) \<Longrightarrow> T \<noteq> ID_END \<Longrightarrow> T \<noteq> ID_LIST \<Longrightarrow>
   readString f1 = Inr (name, f2) \<Longrightarrow> readTag T f2 = Inr (tag, f3) \<Longrightarrow>
     readCompound_loop ct f = readCompound_loop (emplace name tag ct) f3"
  by (simp add: readCompound_loop.simps [of ct f])

lemma readCompound_loop_end:
  "readID f = Inr (Some ID_END, f1) \<Longrightarrow> readCompound_loop ct f = Inr (CompoundTag ct, f1)"
  by (simp add: readCompound_loop.simps [of ct f])

section \<open>The claims\<close>

subsection \<open>C1: the list of the spec's scenario 4\<close>

text \<open>
  C1. The buffer of the spec's scenario 4 (root compound with the empty name, the entry
  \<open>09 00 01 'l' 01 00 00 00 02 05 07\<close>, one End byte) is claimed to decode to
  \<open>Compound{"": Compound{"l": List[Byte 5, Byte 7]}}\<close>. It does not: after the list the
  missing \<^verbatim>\<open>break\<close> lets \<^verbatim>\<open>case ID::COMPOUND\<close> run, which reads the End byte as an empty
  compound body and stores it under the moved-from name; the root loop then asks for
  another kind byte, and \<^verbatim>\<open>readI8\<close> indexes the buffer at its size. With one more End
  byte the decode returns, with the extra entry in the tree.
\<close>

theorem read_scenario4_falls_through:
  "read [0x0A, 0, 0, 9, 0, 1, 0x6C, 1, 0, 0, 0, 2, 5, 7, 0] = Inl OutOfRange
   \<and> read [0x0A, 0, 0, 9, 0, 1, 0x6C, 1, 0, 0, 0, 2, 5, 7, 0, 0]
       = Inr (CompoundTag [([], CompoundTag
           [([], CompoundTag []), ([0x6C], ListTag [ByteTag 5, ByteTag 7])])])"
  by (simp add: eval_defs)

subsection \<open>C2: the guard of readI8\<close>

text \<open>
  C2. \<^verbatim>\<open>readI8\<close> is claimed to return nothing whenever the offset is at or past the size of
  the buffer. Its guard is \<^verbatim>\<open>pos > data.size()\<close>: it returns \<^verbatim>\<open>std::nullopt\<close> exactly when
  the offset is past the size, and at an offset equal to the size it indexes the buffer at
  its size (on the empty buffer, and at the end of a one-byte buffer).
\<close>

theorem readI8_guard_off_by_one:
  "(readI8 f = Inl Nullopt) = (length (data f) < pos f)
   \<and> readI8 \<lparr>data = [], pos = 0\<rparr> = Inl OutOfRange
   \<and> readI8 \<lparr>data = [5], pos = 1\<rparr> = Inl OutOfRange"
  by (simp add: readI8_def next_byte_def)

subsection \<open>C3: lists of End\<close>

text \<open>
  C3, as amended. The claim says that a list header with element kind End and a count
  greater than zero makes the decode fail. \<^verbatim>\<open>readTag<ListTag>\<close> sends the kind End to
  \<^verbatim>\<open>readListTag<EndTag>\<close>, and \<^verbatim>\<open>readTag<EndTag>\<close> returns an \<^verbatim>\<open>EndTag\<close> without
  reading: a list header with element kind End and a count \<open>c \<ge> 0\<close> decodes to \<open>c\<close> End
  values and consumes the five bytes of the header only; the list is empty only when the
  count is zero.
\<close>

theorem list_of_End_decodes:
  "readID f = Inr (Some ID_END, f1) \<Longrightarrow> readI32 f1 = Inr (len, f2) \<Longrightarrow> 0 \<le> sint len \<Longrightarrow>
     readTag ID_LIST f = Inr (ListTag (replicate (nat (sint len)) EndTag), f2)
     \<and> pos f2 = pos f + 5
     \<and> (replicate (nat (sint len)) EndTag = [] \<longleftrightarrow> len = 0)"
proof -
  assume k: "readID f = Inr (Some ID_END, f1)" and l: "readI32 f1 = Inr (len, f2)"
    and s: "0 \<le> sint len"
  from s have n: "size_t_of_i32 len = nat (sint len)"
    using sint_lt [of len] by (simp add: size_t_of_i32_def)
  from k l n have "readTag ID_LIST f = Inr (ListTag (replicate (nat (sint len)) EndTag), f2)"
    by (simp add: readTag.simps [of ID_LIST] readListTag.simps readListTag_loop_END)
  moreover from readID_Inr [OF k] readI32_Inr [OF l] have "pos f2 = pos f + 5" by simp
  moreover from s have "(nat (sint len) = 0) = (len = 0)"
    by (metis nat_0_iff sint_0 signed_eq_0_iff nat_eq_iff2 order_antisym)
  ultimately show ?thesis by simp
qed

theorem list_of_End_decodes_witness:
  "readTag ID_LIST \<lparr>data = [0, 0, 0, 0, 2], pos = 0\<rparr>
     = Inr (ListTag [EndTag, EndTag], \<lparr>data = [0, 0, 0, 0, 2], pos = 5\<rparr>)"
proof -
  let ?d = "[0, 0, 0, 0, 2] :: byte list"
  have k: "readID \<lparr>data = ?d, pos = 0\<rparr> = Inr (Some ID_END, \<lparr>data = ?d, pos = 1\<rparr>)"
    by (simp add: eval_defs)
  have l: "readI32 \<lparr>data = ?d, pos = 1\<rparr> = Inr (2, \<lparr>data = ?d, pos = 5\<rparr>)"
    by (simp add: eval_defs)
  have s: "0 \<le> sint (2 :: 32 word)" by simp
  from list_of_End_decodes [OF k l s] show ?thesis by (simp add: numeral_2_eq_2)
qed

text \<open>
  The claim C3 as stated fails on the root compound whose entry \<open>"l"\<close> is a list with
  element kind End and count 2 (then the End byte that the fall-through of \<^verbatim>\<open>case ID::LIST\<close>
  reads as a compound body, and the End byte of the root): the decode returns a tree, and
  the list in it holds two End values.
\<close>

theorem list_of_End_counterexample:
  "read [0x0A, 0, 0, 9, 0, 1, 0x6C, 0, 0, 0, 0, 2, 0, 0]
     = Inr (CompoundTag [([], CompoundTag
         [([], CompoundTag []), ([0x6C], ListTag [EndTag, EndTag])])])"
  by (simp add: eval_defs)

subsection \<open>C4: negative lengths and counts\<close>

text \<open>
  C4, as amended. The claim says that a negative string length or element count makes
  the decode fail as a malformed length and is never used as a size. The code has no
  check of the sign: \<^verbatim>\<open>static_cast<size_t>\<close> turns a negative count \<open>-k\<close> into the size
  \<open>2 ^ 64 - k\<close>, and \<^verbatim>\<open>pos + *size\<close> adds a negative length as \<open>2 ^ 64 - k\<close>. What holds:
  with a negative count the three array readers pass that size to \<^verbatim>\<open>reserve\<close>, which
  throws \<^verbatim>\<open>std::length_error\<close>; on a buffer shorter than \<open>2 ^ 63\<close> bytes a list whose
  element kind is not End returns no value, because its loop reaches the end of the
  buffer before its bound, and a string whose negative length \<open>-k\<close> has \<open>k\<close> larger than
  the offset reached after the length field returns \<^verbatim>\<open>std::nullopt\<close>. (A list of End reads
  nothing per element, so nothing stops its loop; a negative length whose \<open>k\<close> is at most
  the offset passes the wrapped bounds check. The theorem says nothing about either.)
\<close>

theorem negative_size_not_validated:
  assumes "length (data f) < 2 ^ 63"
  shows "(\<forall>len f1. readI32 f = Inr (len, f1) \<and> sint len < 0 \<longrightarrow>
            size_t_of_i32 len = 2 ^ 64 - nat (- sint len)
            \<and> readTag ID_BYTE_ARRAY f = Inl LengthError
            \<and> readTag ID_INT_ARRAY f = Inl LengthError
            \<and> readTag ID_LONG_ARRAY f = Inl LengthError
            \<and> (\<forall>E. E \<noteq> ID_END \<longrightarrow> (\<exists>e. readListTag E f = Inl e)))
       \<and> (\<forall>sz f1. readI16 f = Inr (sz, f1) \<and> sint sz < 0 \<and> pos f1 < nat (- sint sz) \<longrightarrow>
            size_t_of_i16 sz = 2 ^ 64 - nat (- sint sz)
            \<and> readString f = Inl Nullopt)"
proof (intro conjI allI impI; elim conjE)
  fix len f1
  assume r: "readI32 f = Inr (len, f1)" and neg: "sint len < 0"
  let ?n = "size_t_of_i32 len"
  note n = size_t_of_i32_negative [OF neg]
  from readI32_Inr [OF r] have f1: "pos f1 \<le> length (data f1)" "data f1 = data f" by simp_all
  show "?n = 2 ^ 64 - nat (- sint len)" by (rule n(1))
  have big: "vector_max_size w < ?n" for w
    using vector_max_size_less [of w] n(2) by simp
  from r big [of 1] show "readTag ID_BYTE_ARRAY f = Inl LengthError"
    by (simp add: readTag.simps del: One_nat_def)
  from r big show "readTag ID_INT_ARRAY f = Inl LengthError" by (simp add: readTag.simps)
  from r big show "readTag ID_LONG_ARRAY f = Inl LengthError" by (simp add: readTag.simps)
  fix E :: ID
  assume E: "E \<noteq> ID_END"
  have "readListTag E f \<noteq> Inr p" for p
  proof
    assume "readListTag E f = Inr p"
    then obtain v f' where "readListTag E f = Inr (v, f')" by (cases p) simp
    from decodes_complete(2) [OF this] r have "list_decodes E 0 ?n [] f1 v f'" by simp
    from decodes_consumes(2) [OF this] E f1 n(2) assms show False by simp
  qed
  then show "\<exists>e. readListTag E f = Inl e" by (cases "readListTag E f") auto
next
  fix sz f1
  assume r: "readI16 f = Inr (sz, f1)" and neg: "sint sz < 0" and k: "pos f1 < nat (- sint sz)"
  note n = size_t_of_i16_negative [OF neg]
  show "size_t_of_i16 sz = 2 ^ 64 - nat (- sint sz)" by (rule n(1))
  let ?k = "nat (- sint sz)"
  from k n(2) have lt: "pos f1 + (2 ^ 64 - ?k) < 2 ^ 64" by simp
  from k n(2) have "2 ^ 63 \<le> pos f1 + (2 ^ 64 - ?k)" by simp
  with assms readI16_Inr [OF r] have "length (data f1) < pos f1 + (2 ^ 64 - ?k)" by simp
  with lt r n(1) show "readString f = Inl Nullopt" by (simp add: readString_def)
qed

theorem negative_size_not_validated_witness:
  "readTag ID_BYTE_ARRAY \<lparr>data = [0xFF, 0xFD, 0xFF, 0xFF, 1, 2, 3, 4], pos = 0\<rparr> = Inl LengthError
   \<and> readTag ID_INT_ARRAY \<lparr>data = [0xFF, 0xFD, 0xFF, 0xFF, 1, 2, 3, 4], pos = 0\<rparr> = Inl LengthError
   \<and> readTag ID_LONG_ARRAY \<lparr>data = [0xFF, 0xFD, 0xFF, 0xFF, 1, 2, 3, 4], pos = 0\<rparr> = Inl LengthError
   \<and> (\<exists>e. readListTag ID_SHORT \<lparr>data = [0xFF, 0xFD, 0xFF, 0xFF, 1, 2, 3, 4], pos = 0\<rparr> = Inl e)
   \<and> readString \<lparr>data = [0xFF, 0xFD, 0xFF, 0xFF, 1, 2, 3, 4], pos = 0\<rparr> = Inl Nullopt"
proof -
  let ?d = "[0xFF, 0xFD, 0xFF, 0xFF, 1, 2, 3, 4] :: byte list"
  let ?f = "\<lparr>data = ?d, pos = 0\<rparr>"
  have l: "length (data ?f) < 2 ^ 63" by simp
  have r32: "readI32 ?f = Inr (0xFFFDFFFF, \<lparr>data = ?d, pos = 4\<rparr>)" by (simp add: eval_defs)
  have n32: "sint (0xFFFDFFFF :: 32 word) < 0" by simp
  have r16: "readI16 ?f = Inr (0xFFFD, \<lparr>data = ?d, pos = 2\<rparr>)" by (simp add: eval_defs)
  have n16: "sint (0xFFFD :: 16 word) < 0"
    "pos \<lparr>data = ?d, pos = 2\<rparr> < nat (- sint (0xFFFD :: 16 word))" by simp_all
  note t = negative_size_not_validated [OF l]
  from t r32 n32 have a: "readTag ID_BYTE_ARRAY ?f = Inl LengthError"
    and b: "readTag ID_INT_ARRAY ?f = Inl LengthError"
    and c: "readTag ID_LONG_ARRAY ?f = Inl LengthError"
    and d: "\<forall>E. E \<noteq> ID_END \<longrightarrow> (\<exists>e. readListTag E ?f = Inl e)"
    by blast+
  from d have d': "\<exists>e. readListTag ID_SHORT ?f = Inl e" by simp
  from t r16 n16 have e: "readString ?f = Inl Nullopt" by blast
  from a b c d' e show ?thesis by simp
qed

text \<open>
  The claim C4 as stated fails on the declared length \<open>FF FF\<close>, that is -1: as a
  \<^verbatim>\<open>size_t\<close> it is \<^verbatim>\<open>std::dynamic_extent\<close>, so \<^verbatim>\<open>subspan\<close> takes it as a size, the rest of
  the buffer, and \<^verbatim>\<open>readString\<close> returns those bytes as the string. A root compound with
  such a string entry is not refused either: the cursor is left at the end of the buffer,
  and the next kind byte is read from outside it.
\<close>

theorem negative_size_counterexample:
  "readI16 \<lparr>data = [0xFF, 0xFF, 0x61, 0x62], pos = 0\<rparr>
     = Inr (- 1, \<lparr>data = [0xFF, 0xFF, 0x61, 0x62], pos = 2\<rparr>)
   \<and> readString \<lparr>data = [0xFF, 0xFF, 0x61, 0x62], pos = 0\<rparr>
     = Inr ([0x61, 0x62], \<lparr>data = [0xFF, 0xFF, 0x61, 0x62], pos = 4\<rparr>)
   \<and> read [0x0A, 0, 0, 8, 0, 1, 0x61, 0xFF, 0xFF, 0x41, 0x42] = Inl OutOfRange"
  by (simp add: eval_defs)

subsection \<open>C5: the root\<close>

text \<open>
  C5. \<^verbatim>\<open>read\<close> is claimed to fail on every buffer that does not hold the kind Compound
  (10), a readable name and a well-formed compound body. On the empty buffer, on
  \<open>0A 00 00\<close> (kind and empty name, no body) and on \<open>0A 00 01 'r'\<close> (kind and name
  \<open>"r"\<close>, no body) it does not return \<^verbatim>\<open>std::nullopt\<close>: the kind byte is asked of
  \<^verbatim>\<open>readI8\<close> with the cursor at the size of the buffer, its guard \<^verbatim>\<open>pos > data.size()\<close>
  lets that pass, and \<^verbatim>\<open>data[pos++]\<close> indexes the buffer at its size.
\<close>

theorem read_root_reads_past_end:
  "read [] = Inl OutOfRange
   \<and> read [0x0A, 0, 0] = Inl OutOfRange
   \<and> read [0x0A, 0, 1, 0x72] = Inl OutOfRange"
  by (simp add: eval_defs)

subsection \<open>C6: kind bytes outside 0 .. 12\<close>

text \<open>
  C6. A kind byte outside 0 .. 12 (as an unsigned byte: greater than 12) makes the whole
  decode return no value, wherever a kind is read: if any of the kind bytes that \<^verbatim>\<open>read\<close>
  reads is such a byte, \<^verbatim>\<open>read\<close> returns no tree. At the root and as the element kind of
  a list the result is \<^verbatim>\<open>std::nullopt\<close> at once. In a compound the name of the entry is
  read before the \<^verbatim>\<open>switch\<close> looks at the kind: the result is what the failed read of
  the name returns, and \<^verbatim>\<open>std::nullopt\<close> when the name was read.
\<close>

theorem unrecognised_kind_fails_decode:
  "((\<exists>w \<in> set (kinds_read_by_read d). 12 < w) \<longrightarrow> (\<exists>e. read d = Inl e))
   \<and> (d \<noteq> [] \<and> 12 < d ! 0 \<longrightarrow> read d = Inl Nullopt)
   \<and> (readI8 f = Inr (w, f1) \<and> 12 < w \<longrightarrow>
        readTag ID_LIST f = Inl Nullopt
        \<and> readCompound_loop ct f
            = (case readString f1 of Inl e \<Rightarrow> Inl e | Inr named \<Rightarrow> Inl Nullopt))"
proof (intro conjI impI)
  assume bad: "\<exists>w \<in> set (kinds_read_by_read d). 12 < w"
  let ?f = "\<lparr>data = d, pos = 0\<rparr>"
  show "\<exists>e. read d = Inl e"
  proof (cases "readI8 ?f")
    case (Inl e)
    then show ?thesis by (simp add: read_def readID_def)
  next
    case (Inr p)
    obtain i8 f1 where p: "p = (i8, f1)" by (cases p)
    with Inr have r: "readI8 ?f = Inr (i8, f1)" by simp
    show ?thesis
    proof (cases "static_cast_ID i8 = Some ID_COMPOUND")
      case False
      with r show ?thesis by (simp add: read_def readID_def)
    next
      case True
      then have ok: "\<not> 12 < i8" by (simp flip: static_cast_ID_None)
      show ?thesis
      proof (cases "readString f1")
        case (Inl e)
        with r True show ?thesis by (simp add: read_def readID_def)
      next
        case (Inr q)
        obtain name f2 where q: "q = (name, f2)" by (cases q)
        with Inr have n: "readString f1 = Inr (name, f2)" by simp
        from bad r True n ok have "\<exists>w \<in> set (kinds_read ID_COMPOUND f2). 12 < w"
          by (simp add: kinds_read_by_read_def)
        from kinds_read_unrecognised(1) [OF this] r True n show ?thesis
          by (auto simp: read_def readID_def)
      qed
    qed
  qed
next
  assume "d \<noteq> [] \<and> 12 < d ! 0"
  then have "d \<noteq> []" and "static_cast_ID (d ! 0) = None" by (simp_all add: static_cast_ID_None)
  then show "read d = Inl Nullopt"
    by (simp add: read_def readID_def readI8_def next_byte_def)
next
  assume a: "readI8 f = Inr (w, f1) \<and> 12 < w"
  then have r: "readI8 f = Inr (w, f1)" and n: "static_cast_ID w = None"
    by (simp_all add: static_cast_ID_None)
  then show "readTag ID_LIST f = Inl Nullopt" by (simp add: readTag.simps readID_def)
  from r n show "readCompound_loop ct f
      = (case readString f1 of Inl e \<Rightarrow> Inl e | Inr named \<Rightarrow> Inl Nullopt)"
    by (simp add: readCompound_loop.simps [of ct f] readID_def split: sum.splits)
qed

theorem unrecognised_kind_fails_decode_witness:
  "kinds_read_by_read [0x0A, 0, 0, 1, 0, 1, 0x61, 5, 0x63, 0, 1, 0x62, 0] = [0x0A, 1, 0x63]
   \<and> read [0x0A, 0, 0, 1, 0, 1, 0x61, 5, 0x63, 0, 1, 0x62, 0] = Inl Nullopt
   \<and> read [0x63, 0, 0, 0] = Inl Nullopt
   \<and> readTag ID_LIST \<lparr>data = [0x63, 0, 0, 0, 0], pos = 0\<rparr> = Inl Nullopt"
proof -
  let ?d = "[0x0A, 0, 0, 1, 0, 1, 0x61, 5, 0x63, 0, 1, 0x62, 0] :: byte list"
  have k: "kinds_read_by_read ?d = [0x0A, 1, 0x63]"
    by (simp add: eval_kinds eval_defs)
  then have "\<exists>w \<in> set (kinds_read_by_read ?d). 12 < w" by simp
  with unrecognised_kind_fails_decode [of ?d] obtain e where e: "read ?d = Inl e" by blast
  have "read ?d \<noteq> Inl OutOfRange" and "read ?d \<noteq> Inl LengthError"
    by (simp_all add: eval_defs)
  with e have a: "read ?d = Inl Nullopt" by (cases e) simp_all
  have b: "read [0x63, 0, 0, 0] = Inl Nullopt"
    using unrecognised_kind_fails_decode [of "[0x63, 0, 0, 0]"] by simp
  have "readI8 \<lparr>data = [0x63, 0, 0, 0, 0], pos = 0\<rparr>
      = Inr (0x63, \<lparr>data = [0x63, 0, 0, 0, 0], pos = 1\<rparr>)"
    by (simp add: eval_defs)
  with unrecognised_kind_fails_decode [of _ "\<lparr>data = [0x63, 0, 0, 0, 0], pos = 0\<rparr>" "0x63"]
  have c: "readTag ID_LIST \<lparr>data = [0x63, 0, 0, 0, 0], pos = 0\<rparr> = Inl Nullopt" by simp
  from k a b c show ?thesis by simp
qed

subsection \<open>C7: order of the entries of a compound\<close>

text \<open>
  C7. Every compound of a tree that \<^verbatim>\<open>read\<close> returns, at every nesting depth, enumerates
  its entries in the lexicographic order of their keys, whatever their order on the wire:
  the entries \<open>"b"\<close>, \<open>"a"\<close> of the witness come back as \<open>"a"\<close>, \<open>"b"\<close>.
\<close>

theorem read_ordered_by_key: "read d = Inr t \<Longrightarrow> ordered_by_key t"
proof -
  assume "read d = Inr t"
  then obtain name f2 tag f3 where "readTag ID_COMPOUND f2 = Inr (tag, f3)"
    and t: "t = CompoundTag (emplace name tag [])"
    by (auto simp: read_def split: sum.splits if_splits)
  from decodes_ordered(1) [OF decodes_complete(1) [OF this(1)]] t show ?thesis by simp
qed

theorem read_ordered_by_key_witness:
  "read [0x0A, 0, 0, 1, 0, 1, 0x62, 5, 1, 0, 1, 0x61, 7, 0]
     = Inr (CompoundTag [([], CompoundTag [([0x61], ByteTag 7), ([0x62], ByteTag 5)])])
   \<and> ordered_by_key (CompoundTag [([], CompoundTag [([0x61], ByteTag 7), ([0x62], ByteTag 5)])])"
proof -
  have r: "read [0x0A, 0, 0, 1, 0, 1, 0x62, 5, 1, 0, 1, 0x61, 7, 0]
     = Inr (CompoundTag [([], CompoundTag [([0x61], ByteTag 7), ([0x62], ByteTag 5)])])"
    by (simp add: eval_defs)
  from read_ordered_by_key [OF r] r show ?thesis by simp
qed

subsection \<open>C8: byte order\<close>

text \<open>
  C8. The reads of more than one byte, \<^verbatim>\<open>readI16\<close>, \<^verbatim>\<open>readI32\<close> and \<^verbatim>\<open>readI64\<close>,
  put the two, four or eight bytes at the cursor together most significant byte first:
  when that many bytes are left, the read returns the word \<open>v\<close> whose unsigned value is
  the bytes read as digits in base 256, the first byte the highest digit, and moves the
  cursor past them; the signed value of \<open>v\<close> is its two's-complement reading,
  the unsigned value when that is below half the range and the unsigned value minus the
  range otherwise. The bytes \<open>00 00 00 01\<close> decode as an Int to 1 and the bytes
  \<open>FF FF FF FF\<close> to -1; \<open>FF FE\<close> decodes as a Short to -2 and
  \<open>00 00 00 00 00 00 01 02\<close> as a Long to 258.
\<close>

theorem multi_byte_reads_big_endian:
  "(pos f + 2 \<le> length (data f) \<longrightarrow>
      (\<exists>v. readI16 f = Inr (v, f\<lparr>pos := pos f + 2\<rparr>)
         \<and> uint v = uint (data f ! pos f) * 256 + uint (data f ! (pos f + 1))
         \<and> sint v = (if uint v < 2 ^ 15 then uint v else uint v - 2 ^ 16)))
   \<and> (pos f + 4 \<le> length (data f) \<longrightarrow>
      (\<exists>v. readI32 f = Inr (v, f\<lparr>pos := pos f + 4\<rparr>)
         \<and> uint v = ((uint (data f ! pos f) * 256 + uint (data f ! (pos f + 1))) * 256
                      + uint (data f ! (pos f + 2))) * 256 + uint (data f ! (pos f + 3))
         \<and> sint v = (if uint v < 2 ^ 31 then uint v else uint v - 2 ^ 32)))
   \<and> (pos f + 8 \<le> length (data f) \<longrightarrow>
      (\<exists>v. readI64 f = Inr (v, f\<lparr>pos := pos f + 8\<rparr>)
         \<and> uint v = ((((((uint (data f ! pos f) * 256 + uint (data f ! (pos f + 1))) * 256
                      + uint (data f ! (pos f + 2))) * 256 + uint (data f ! (pos f + 3))) * 256
                      + uint (data f ! (pos f + 4))) * 256 + uint (data f ! (pos f + 5))) * 256
                      + uint (data f ! (pos f + 6))) * 256 + uint (data f ! (pos f + 7))
         \<and> sint v = (if uint v < 2 ^ 63 then uint v else uint v - 2 ^ 64)))
   \<and> readTag ID_INT \<lparr>data = [0, 0, 0, 1], pos = 0\<rparr>
       = Inr (IntTag 1, \<lparr>data = [0, 0, 0, 1], pos = 4\<rparr>)
   \<and> sint (1 :: 32 word) = 1
   \<and> readTag ID_INT \<lparr>data = [0xFF, 0xFF, 0xFF, 0xFF], pos = 0\<rparr>
       = Inr (IntTag (- 1), \<lparr>data = [0xFF, 0xFF, 0xFF, 0xFF], pos = 4\<rparr>)
   \<and> sint (- 1 :: 32 word) = - 1
   \<and> readTag ID_SHORT \<lparr>data = [0xFF, 0xFE], pos = 0\<rparr>
       = Inr (ShortTag (- 2), \<lparr>data = [0xFF, 0xFE], pos = 2\<rparr>)
   \<and> sint (- 2 :: 16 word) = - 2
   \<and> readTag ID_LONG \<lparr>data = [0, 0, 0, 0, 0, 0, 1, 2], pos = 0\<rparr>
       = Inr (LongTag 258, \<lparr>data = [0, 0, 0, 0, 0, 0, 1, 2], pos = 8\<rparr>)
   \<and> sint (258 :: 64 word) = 258"
proof -
  have a: "pos f + 2 \<le> length (data f) \<longrightarrow>
      (\<exists>v. readI16 f = Inr (v, f\<lparr>pos := pos f + 2\<rparr>)
         \<and> uint v = uint (data f ! pos f) * 256 + uint (data f ! (pos f + 1))
         \<and> sint v = (if uint v < 2 ^ 15 then uint v else uint v - 2 ^ 16))"
    using sint_twos_complement [where 'a = 16]
    by (simp add: readI16_value uint_bit_cast)
  have b: "pos f + 4 \<le> length (data f) \<longrightarrow>
      (\<exists>v. readI32 f = Inr (v, f\<lparr>pos := pos f + 4\<rparr>)
         \<and> uint v = ((uint (data f ! pos f) * 256 + uint (data f ! (pos f + 1))) * 256
                      + uint (data f ! (pos f + 2))) * 256 + uint (data f ! (pos f + 3))
         \<and> sint v = (if uint v < 2 ^ 31 then uint v else uint v - 2 ^ 32))"
    using sint_twos_complement [where 'a = 32]
    by (simp add: readI32_value uint_bit_cast)
  have c: "pos f + 8 \<le> length (data f) \<longrightarrow>
      (\<exists>v. readI64 f = Inr (v, f\<lparr>pos := pos f + 8\<rparr>)
         \<and> uint v = ((((((uint (data f ! pos f) * 256 + uint (data f ! (pos f + 1))) * 256
                      + uint (data f ! (pos f + 2))) * 256 + uint (data f ! (pos f + 3))) * 256
                      + uint (data f ! (pos f + 4))) * 256 + uint (data f ! (pos f + 5))) * 256
                      + uint (data f ! (pos f + 6))) * 256 + uint (data f ! (pos f + 7))
         \<and> sint v = (if uint v < 2 ^ 63 then uint v else uint v - 2 ^ 64))"
    using sint_twos_complement [where 'a = 64]
    by (simp add: readI64_value uint_bit_cast)
  have d: "readTag ID_INT \<lparr>data = [0, 0, 0, 1], pos = 0\<rparr>
       = Inr (IntTag 1, \<lparr>data = [0, 0, 0, 1], pos = 4\<rparr>)"
    by (simp add: eval_defs)
  have e: "readTag ID_INT \<lparr>data = [0xFF, 0xFF, 0xFF, 0xFF], pos = 0\<rparr>
       = Inr (IntTag (- 1), \<lparr>data = [0xFF, 0xFF, 0xFF, 0xFF], pos = 4\<rparr>)"
    by (simp add: eval_defs)
  have g: "readTag ID_SHORT \<lparr>data = [0xFF, 0xFE], pos = 0\<rparr>
       = Inr (ShortTag (- 2), \<lparr>data = [0xFF, 0xFE], pos = 2\<rparr>)"
    by (simp add: eval_defs)
  have h: "readTag ID_LONG \<lparr>data = [0, 0, 0, 0, 0, 0, 1, 2], pos = 0\<rparr>
       = Inr (LongTag 258, \<lparr>data = [0, 0, 0, 0, 0, 0, 1, 2], pos = 8\<rparr>)"
    by (simp add: eval_defs)
  have s: "sint (1 :: 32 word) = 1" "sint (- 1 :: 32 word) = - 1"
    "sint (- 2 :: 16 word) = - 2" "sint (258 :: 64 word) = 258" by simp_all
  from a b c d e g h s show ?thesis by (intro conjI)
qed

theorem multi_byte_reads_big_endian_witness:
  "(\<exists>v. readI16 \<lparr>data = [0x80, 0, 0, 1, 0, 0, 0, 2], pos = 0\<rparr>
           = Inr (v, \<lparr>data = [0x80, 0, 0, 1, 0, 0, 0, 2], pos = 2\<rparr>)
        \<and> uint v = 32768 \<and> sint v = - 32768)
   \<and> (\<exists>v. readI32 \<lparr>data = [0x80, 0, 0, 1, 0, 0, 0, 2], pos = 0\<rparr>
           = Inr (v, \<lparr>data = [0x80, 0, 0, 1, 0, 0, 0, 2], pos = 4\<rparr>)
        \<and> uint v = 2147483649 \<and> sint v = - 2147483647)
   \<and> (\<exists>v. readI64 \<lparr>data = [0x80, 0, 0, 1, 0, 0, 0, 2], pos = 0\<rparr>
           = Inr (v, \<lparr>data = [0x80, 0, 0, 1, 0, 0, 0, 2], pos = 8\<rparr>)
        \<and> uint v = 9223372041149743106 \<and> sint v = - 9223372032559808510)"
  using multi_byte_reads_big_endian [of "\<lparr>data = [0x80, 0, 0, 1, 0, 0, 0, 2], pos = 0\<rparr>"]
  by auto

subsection \<open>C9: bytes after the root compound\<close>

text \<open>
  C9. \<^verbatim>\<open>read\<close> does not ask that the buffer be used up: when \<open>read b\<close> returns the tree
  \<open>t\<close>, so does \<open>read (b @ s)\<close> for every sequence of bytes \<open>s\<close>. Whatever follows the
  End byte of the root compound is not looked at.
\<close>

theorem read_ignores_trailing_bytes:
  "read b = Inr t \<Longrightarrow> read (b @ s) = Inr t"
proof -
  assume "read b = Inr t"
  then obtain f1 name f2 tag f3 where k: "readID \<lparr>data = b, pos = 0\<rparr> = Inr (Some ID_COMPOUND, f1)"
    and n: "readString f1 = Inr (name, f2)" and c: "readTag ID_COMPOUND f2 = Inr (tag, f3)"
    and t: "t = CompoundTag (emplace name tag [])"
    by (auto simp: read_def split: sum.splits if_splits)
  note d = decodes_complete(1) [OF c]
  from d have cd: "compound_decodes [] f2 tag f3" by (auto elim: decodes.cases)
  from decodes_mono(3) [OF cd] readString_Inr [OF n] have "pos f2 < length (data f1)" by simp
  note n' = readString_append_bytes [OF n this, of s]
  note c' = decodes_sound(1) [OF dec_COMPOUND [OF decodes_append_bytes(3) [OF cd, of s]]]
  have "append_bytes \<lparr>data = b, pos = 0\<rparr> s = \<lparr>data = b @ s, pos = 0\<rparr>" by (simp add: append_bytes_def)
  with readID_append_bytes [OF k, of s] n' c' t show ?thesis by (simp add: read_def)
qed

theorem read_ignores_trailing_bytes_witness:
  "read [0x0A, 0, 0, 3, 0, 1, 0x78, 0, 0, 0, 0x2A, 0]
     = Inr (CompoundTag [([], CompoundTag [([0x78], IntTag 42)])])
   \<and> read ([0x0A, 0, 0, 3, 0, 1, 0x78, 0, 0, 0, 0x2A, 0] @ [0xFF, 0x0A, 0x63])
     = Inr (CompoundTag [([], CompoundTag [([0x78], IntTag 42)])])"
proof -
  have r: "read [0x0A, 0, 0, 3, 0, 1, 0x78, 0, 0, 0, 0x2A, 0]
     = Inr (CompoundTag [([], CompoundTag [([0x78], IntTag 42)])])"
    by (simp add: eval_defs)
  from read_ignores_trailing_bytes [OF r] r show ?thesis by simp
qed

subsection \<open>C10: entries with the same name\<close>

text \<open>
  C10. A compound body with two well-formed entries of the same name is claimed to decode,
  with both payloads consumed and the name mapped to the first value. When the first of
  the two is a List it does not: in the body \<open>09 00 01 'a' 01 00 00 00 00\<close> (the empty
  list \<open>"a"\<close>), \<open>01 00 01 'a' 05\<close> (the Byte \<open>"a" = 5\<close>), \<open>00\<close> each payload decodes on
  its own, but after the list the missing \<^verbatim>\<open>break\<close> lets \<^verbatim>\<open>case ID::COMPOUND\<close> run, which
  reads the second entry and the End byte as a compound of its own; the loop then asks for
  a kind byte at the size of the buffer, where \<^verbatim>\<open>readI8\<close> indexes past the end. The same
  happens in a file with that body, and with the Byte first and the List second. With one
  more End byte the file decodes, and the second entry is not skipped but sits in a
  compound stored under the empty name.
\<close>

theorem duplicate_name_after_list_fails:
  "readTag ID_LIST \<lparr>data = [9, 0, 1, 0x61, 1, 0, 0, 0, 0, 1, 0, 1, 0x61, 5, 0], pos = 4\<rparr>
     = Inr (ListTag [], \<lparr>data = [9, 0, 1, 0x61, 1, 0, 0, 0, 0, 1, 0, 1, 0x61, 5, 0], pos = 9\<rparr>)
   \<and> readTag ID_BYTE \<lparr>data = [9, 0, 1, 0x61, 1, 0, 0, 0, 0, 1, 0, 1, 0x61, 5, 0], pos = 13\<rparr>
     = Inr (ByteTag 5, \<lparr>data = [9, 0, 1, 0x61, 1, 0, 0, 0, 0, 1, 0, 1, 0x61, 5, 0], pos = 14\<rparr>)
   \<and> readTag ID_COMPOUND \<lparr>data = [9, 0, 1, 0x61, 1, 0, 0, 0, 0, 1, 0, 1, 0x61, 5, 0], pos = 0\<rparr>
     = Inl OutOfRange
   \<and> read [0x0A, 0, 0, 9, 0, 1, 0x61, 1, 0, 0, 0, 0, 1, 0, 1, 0x61, 5, 0] = Inl OutOfRange
   \<and> read [0x0A, 0, 0, 1, 0, 1, 0x61, 5, 9, 0, 1, 0x61, 1, 0, 0, 0, 0, 0] = Inl OutOfRange
   \<and> read [0x0A, 0, 0, 9, 0, 1, 0x61, 1, 0, 0, 0, 0, 1, 0, 1, 0x61, 5, 0, 0]
       = Inr (CompoundTag [([], CompoundTag
           [([], CompoundTag [([0x61], ByteTag 5)]), ([0x61], ListTag [])])])"
  by (simp add: eval_defs)

subsection \<open>The tree that read returns\<close>

text \<open>
  When \<^verbatim>\<open>read\<close> returns a tree: exactly when the buffer is not empty, its first byte is
  the kind Compound (10), a name can be read after it and the compound body after the
  name; the tree is then a compound with the single entry that maps the name read to the
  body. When the first byte is another kind, \<^verbatim>\<open>read\<close> returns \<^verbatim>\<open>std::nullopt\<close>. Nothing
  is said here of the buffers on which \<^verbatim>\<open>read\<close> indexes past the end.
\<close>

theorem read_root_compound:
  "(read d = Inr t) =
     (d \<noteq> [] \<and> d ! 0 = 10
      \<and> (\<exists>name f2 m f3. readString \<lparr>data = d, pos = 1\<rparr> = Inr (name, f2)
            \<and> readTag ID_COMPOUND f2 = Inr (CompoundTag m, f3)
            \<and> t = CompoundTag [(name, CompoundTag m)]))
   \<and> (d \<noteq> [] \<and> d ! 0 \<noteq> 10 \<longrightarrow> read d = Inl Nullopt)"
proof (rule conjI)
  let ?R = "d \<noteq> [] \<and> d ! 0 = 10
      \<and> (\<exists>name f2 m f3. readString \<lparr>data = d, pos = 1\<rparr> = Inr (name, f2)
            \<and> readTag ID_COMPOUND f2 = Inr (CompoundTag m, f3)
            \<and> t = CompoundTag [(name, CompoundTag m)])"
  show "(read d = Inr t) = ?R"
  proof (rule iffI)
    assume r: "read d = Inr t"
    then obtain w f1 where i: "readID \<lparr>data = d, pos = 0\<rparr> = Inr (w, f1)"
      by (auto simp: read_def split: sum.splits)
    from readID_Inr [OF i] have d: "d \<noteq> []" and w: "w = static_cast_ID (d ! 0)"
      and f1: "f1 = \<lparr>data = d, pos = 1\<rparr>" by auto
    from r i obtain name f2 tag f3 where c: "w = Some ID_COMPOUND"
      and n: "readString f1 = Inr (name, f2)" and b: "readTag ID_COMPOUND f2 = Inr (tag, f3)"
      and t: "t = CompoundTag (emplace name tag [])"
      by (auto simp: read_def split: sum.splits if_splits)
    from readTag_COMPOUND_is_compound [OF b] obtain m where m: "tag = CompoundTag m" ..
    from c w have "d ! 0 = 10" by (simp add: static_cast_ID_COMPOUND)
    with d n b t m f1 show ?R by auto
  next
    assume ?R
    then show "read d = Inr t"
      by (auto simp: read_def readID_def readI8_def next_byte_def static_cast_ID_COMPOUND)
  qed
  show "d \<noteq> [] \<and> d ! 0 \<noteq> 10 \<longrightarrow> read d = Inl Nullopt"
    by (auto simp: read_def readID_def readI8_def next_byte_def static_cast_ID_COMPOUND)
qed

theorem read_root_compound_witness:
  "read [0x0A, 0, 1, 0x72, 0] = Inr (CompoundTag [([0x72], CompoundTag [])])
   \<and> read [0x09, 0, 1, 0x72, 0] = Inl Nullopt"
proof -
  let ?d = "[0x0A, 0, 1, 0x72, 0] :: byte list"
  have n: "readString \<lparr>data = ?d, pos = 1\<rparr> = Inr ([0x72], \<lparr>data = ?d, pos = 4\<rparr>)"
    by (simp add: eval_defs)
  have b: "readTag ID_COMPOUND \<lparr>data = ?d, pos = 4\<rparr> = Inr (CompoundTag [], \<lparr>data = ?d, pos = 5\<rparr>)"
    by (simp add: eval_defs)
  from n b have "read ?d = Inr (CompoundTag [([0x72], CompoundTag [])])"
    using read_root_compound [of ?d "CompoundTag [([0x72], CompoundTag [])]"] by auto
  moreover have "read [0x09, 0, 1, 0x72, 0] = Inl Nullopt"
    using read_root_compound [of "[0x09, 0, 1, 0x72, 0]"] by simp
  ultimately show ?thesis by simp
qed

subsection \<open>Two entries with the same name, neither a List\<close>

text \<open>
  The loop of \<^verbatim>\<open>readTag<CompoundTag>\<close>, started at two entries with the same name whose
  kinds are neither End nor List and whose payloads decode: it goes on after the second
  payload with the map that holds the first entry only, so both payloads are consumed and
  the second value is dropped; when the End byte follows, the loop returns that map and
  the cursor after the End byte. In the map the name has the value it had before, or the
  value of the first of the two entries when it was new.
\<close>

theorem duplicate_entry_is_skipped:
  "sorted_wrt (<) (map fst ct) \<Longrightarrow>
   T1 \<noteq> ID_END \<Longrightarrow> T1 \<noteq> ID_LIST \<Longrightarrow> T2 \<noteq> ID_END \<Longrightarrow> T2 \<noteq> ID_LIST \<Longrightarrow>
   readID f = Inr (Some T1, f1) \<Longrightarrow> readString f1 = Inr (name, f2) \<Longrightarrow>
   readTag T1 f2 = Inr (tag1, f3) \<Longrightarrow>
   readID f3 = Inr (Some T2, f4) \<Longrightarrow> readString f4 = Inr (name, f5) \<Longrightarrow>
   readTag T2 f5 = Inr (tag2, f6) \<Longrightarrow>
     readCompound_loop ct f = readCompound_loop (emplace name tag1 ct) f6
     \<and> (\<forall>f7. readID f6 = Inr (Some ID_END, f7) \<longrightarrow>
           readCompound_loop ct f = Inr (CompoundTag (emplace name tag1 ct), f7))
     \<and> map_of (emplace name tag1 ct) name
         = (case map_of ct name of Some old \<Rightarrow> Some old | None \<Rightarrow> Some tag1)"
proof -
  assume s: "sorted_wrt (<) (map fst ct)"
    and T1: "T1 \<noteq> ID_END" "T1 \<noteq> ID_LIST" and T2: "T2 \<noteq> ID_END" "T2 \<noteq> ID_LIST"
    and k1: "readID f = Inr (Some T1, f1)" and n1: "readString f1 = Inr (name, f2)"
    and t1: "readTag T1 f2 = Inr (tag1, f3)"
    and k2: "readID f3 = Inr (Some T2, f4)" and n2: "readString f4 = Inr (name, f5)"
    and t2: "readTag T2 f5 = Inr (tag2, f6)"
  have "readCompound_loop ct f = readCompound_loop (emplace name tag1 ct) f3"
    using k1 T1 n1 t1 by (rule readCompound_loop_entry)
  also have "\<dots> = readCompound_loop (emplace name tag2 (emplace name tag1 ct)) f6"
    using k2 T2 n2 t2 by (rule readCompound_loop_entry)
  also have "emplace name tag2 (emplace name tag1 ct) = emplace name tag1 ct"
    using s by (rule emplace_twice)
  finally have eq: "readCompound_loop ct f = readCompound_loop (emplace name tag1 ct) f6" .
  have e: "readCompound_loop ct f = Inr (CompoundTag (emplace name tag1 ct), f7)"
    if "readID f6 = Inr (Some ID_END, f7)" for f7
    using eq readCompound_loop_end [OF that] by simp
  have m: "map_of (emplace name tag1 ct) name
         = (case map_of ct name of Some old \<Rightarrow> Some old | None \<Rightarrow> Some tag1)"
    by (simp add: map_of_emplace [OF s])
  from eq e m show ?thesis by blast
qed

theorem duplicate_entry_is_skipped_witness:
  "readCompound_loop [] \<lparr>data = [1, 0, 1, 0x61, 1, 3, 0, 1, 0x61, 0, 0, 0, 2, 0], pos = 0\<rparr>
     = Inr (CompoundTag [([0x61], ByteTag 1)],
            \<lparr>data = [1, 0, 1, 0x61, 1, 3, 0, 1, 0x61, 0, 0, 0, 2, 0], pos = 14\<rparr>)
   \<and> map_of (emplace [0x61] (ByteTag 1) []) [0x61] = Some (ByteTag 1)"
proof -
  let ?d = "[1, 0, 1, 0x61, 1, 3, 0, 1, 0x61, 0, 0, 0, 2, 0] :: byte list"
  have s: "sorted_wrt (<) (map fst ([] :: (std_string \<times> Tag) list))" by simp
  have T: "ID_BYTE \<noteq> ID_END" "ID_BYTE \<noteq> ID_LIST" "ID_INT \<noteq> ID_END" "ID_INT \<noteq> ID_LIST"
    by simp_all
  have k1: "readID \<lparr>data = ?d, pos = 0\<rparr> = Inr (Some ID_BYTE, \<lparr>data = ?d, pos = 1\<rparr>)"
    by (simp add: eval_defs)
  have n1: "readString \<lparr>data = ?d, pos = 1\<rparr> = Inr ([0x61], \<lparr>data = ?d, pos = 4\<rparr>)"
    by (simp add: eval_defs)
  have t1: "readTag ID_BYTE \<lparr>data = ?d, pos = 4\<rparr> = Inr (ByteTag 1, \<lparr>data = ?d, pos = 5\<rparr>)"
    by (simp add: eval_defs)
  have k2: "readID \<lparr>data = ?d, pos = 5\<rparr> = Inr (Some ID_INT, \<lparr>data = ?d, pos = 6\<rparr>)"
    by (simp add: eval_defs)
  have n2: "readString \<lparr>data = ?d, pos = 6\<rparr> = Inr ([0x61], \<lparr>data = ?d, pos = 9\<rparr>)"
    by (simp add: eval_defs)
  have t2: "readTag ID_INT \<lparr>data = ?d, pos = 9\<rparr> = Inr (IntTag 2, \<lparr>data = ?d, pos = 13\<rparr>)"
    by (simp add: eval_defs)
  have e: "readID \<lparr>data = ?d, pos = 13\<rparr> = Inr (Some ID_END, \<lparr>data = ?d, pos = 14\<rparr>)"
    by (simp add: eval_defs)
  note th = duplicate_entry_is_skipped [OF s T k1 n1 t1 k2 n2 t2]
  from th have a: "\<forall>f7. readID \<lparr>data = ?d, pos = 13\<rparr> = Inr (Some ID_END, f7) \<longrightarrow>
      readCompound_loop [] \<lparr>data = ?d, pos = 0\<rparr>
        = Inr (CompoundTag (emplace [0x61] (ByteTag 1) []), f7)"
    by (elim conjE)
  from th have b: "map_of (emplace [0x61] (ByteTag 1) []) [0x61]
      = (case map_of [] [0x61 :: byte] of Some old \<Rightarrow> Some old | None \<Rightarrow> Some (ByteTag 1))"
    by (elim conjE)
  from a e have "readCompound_loop [] \<lparr>data = ?d, pos = 0\<rparr>
        = Inr (CompoundTag (emplace [0x61] (ByteTag 1) []), \<lparr>data = ?d, pos = 14\<rparr>)"
    by blast
  with b show ?thesis by simp
qed

subsection \<open>Entries already in the map, when the loop returns\<close>

text \<open>
  For a run of the loop of \<^verbatim>\<open>readTag<CompoundTag>\<close> that returns, started with any map
  \<open>ct\<close> built so far and returning the map \<open>m\<close>: an entry already in \<open>ct\<close> is in \<open>m\<close>
  with the same value (a later entry never replaces it); the entry read first is in \<open>m\<close>
  with its value when its name was not yet in \<open>ct\<close>; and the loop returns from every
  other map too, with the cursor at the same place. In the witness the body holds
  \<open>"a" = 1\<close>, \<open>"a" = 2\<close>, \<open>"b" = 3\<close>, read into a map that holds \<open>"b" = 9\<close>: all sixteen
  bytes are consumed and the result is \<open>"a" = 1\<close>, \<open>"b" = 9\<close>.
\<close>

theorem compound_keeps_first_entry:
  "sorted_wrt (<) (map fst ct) \<Longrightarrow> readCompound_loop ct f = Inr (v, f') \<Longrightarrow>
     \<exists>m. v = CompoundTag m
       \<and> (\<forall>k old. map_of ct k = Some old \<longrightarrow> map_of m k = Some old)
       \<and> (\<forall>T f1 name f2 tag f3.
             T \<noteq> ID_END \<and> readID f = Inr (Some T, f1) \<and> readString f1 = Inr (name, f2)
               \<and> readTag T f2 = Inr (tag, f3) \<and> map_of ct name = None
             \<longrightarrow> map_of m name = Some tag)
       \<and> (\<forall>ct'. \<exists>m'. readCompound_loop ct' f = Inr (CompoundTag m', f'))"
proof -
  assume s: "sorted_wrt (<) (map fst ct)" and r: "readCompound_loop ct f = Inr (v, f')"
  note d = decodes_complete(4) [OF r]
  from compound_decodes_keeps(3) [OF d s] obtain m where v: "v = CompoundTag m"
    and keep: "\<forall>k old. map_of ct k = Some old \<longrightarrow> map_of m k = Some old" by blast
  have any: "\<exists>m'. readCompound_loop ct' f = Inr (CompoundTag m', f')" for ct'
    using compound_decodes_any_map(3) [OF d, of ct'] by (blast dest: decodes_sound(3))
  have first: "map_of m name = Some tag"
    if T: "T \<noteq> ID_END" and k: "readID f = Inr (Some T, f1)"
      and n: "readString f1 = Inr (name, f2)" and t: "readTag T f2 = Inr (tag, f3)"
      and new: "map_of ct name = None" for T f1 name f2 tag f3
  proof -
    let ?c1 = "emplace name tag ct"
    have s1: "sorted_wrt (<) (map fst ?c1)" using s by (rule emplace_sorted)
    from new have c1: "map_of ?c1 name = Some tag" by (simp add: map_of_emplace [OF s])
    show ?thesis
    proof (cases "T = ID_LIST")
      case True
      with r k n t T obtain tag' f4 where
        l: "readCompound_loop (emplace (moved_from name) tag' ?c1) f4 = Inr (v, f')"
        by (auto simp: readCompound_loop.simps [of ct f] split: sum.splits)
      let ?c2 = "emplace (moved_from name) tag' ?c1"
      have s2: "sorted_wrt (<) (map fst ?c2)" using s1 by (rule emplace_sorted)
      from c1 have "map_of ?c2 name = Some tag" by (simp add: map_of_emplace [OF s1])
      with compound_decodes_keeps(3) [OF decodes_complete(4) [OF l] s2] v show ?thesis by auto
    next
      case False
      with r k n t T have l: "readCompound_loop ?c1 f3 = Inr (v, f')"
        by (auto simp: readCompound_loop.simps [of ct f] split: sum.splits)
      with compound_decodes_keeps(3) [OF decodes_complete(4) [OF l] s1] v c1 show ?thesis by auto
    qed
  qed
  show ?thesis
  proof (rule exI [of _ m], intro conjI allI impI)
    show "v = CompoundTag m" by (rule v)
  next
    fix k old assume "map_of ct k = Some old"
    with keep show "map_of m k = Some old" by simp
  next
    fix T f1 name f2 tag f3
    assume "T \<noteq> ID_END \<and> readID f = Inr (Some T, f1) \<and> readString f1 = Inr (name, f2)
               \<and> readTag T f2 = Inr (tag, f3) \<and> map_of ct name = None"
    then show "map_of m name = Some tag" by (elim conjE) (rule first)
  next
    fix ct' show "\<exists>m'. readCompound_loop ct' f = Inr (CompoundTag m', f')" by (rule any)
  qed
qed

theorem compound_keeps_first_entry_witness:
  "readCompound_loop [([0x62], ByteTag 9)]
       \<lparr>data = [1, 0, 1, 0x61, 1, 1, 0, 1, 0x61, 2, 1, 0, 1, 0x62, 3, 0], pos = 0\<rparr>
     = Inr (CompoundTag [([0x61], ByteTag 1), ([0x62], ByteTag 9)],
            \<lparr>data = [1, 0, 1, 0x61, 1, 1, 0, 1, 0x61, 2, 1, 0, 1, 0x62, 3, 0], pos = 16\<rparr>)
   \<and> map_of [([0x61 :: byte], ByteTag 1), ([0x62], ByteTag 9)] [0x62] = Some (ByteTag 9)
   \<and> map_of [([0x61 :: byte], ByteTag 1), ([0x62], ByteTag 9)] [0x61] = Some (ByteTag 1)
   \<and> (\<exists>m'. readCompound_loop []
            \<lparr>data = [1, 0, 1, 0x61, 1, 1, 0, 1, 0x61, 2, 1, 0, 1, 0x62, 3, 0], pos = 0\<rparr>
          = Inr (CompoundTag m',
              \<lparr>data = [1, 0, 1, 0x61, 1, 1, 0, 1, 0x61, 2, 1, 0, 1, 0x62, 3, 0], pos = 16\<rparr>))
   \<and> read [0x0A, 0, 0, 1, 0, 1, 0x61, 1, 1, 0, 1, 0x61, 2, 0]
       = Inr (CompoundTag [([], CompoundTag [([0x61], ByteTag 1)])])"
proof -
  let ?d = "[1, 0, 1, 0x61, 1, 1, 0, 1, 0x61, 2, 1, 0, 1, 0x62, 3, 0] :: byte list"
  let ?m = "[([0x61], ByteTag 1), ([0x62], ByteTag 9)] :: (std_string \<times> Tag) list"
  have s: "sorted_wrt (<) (map fst [([0x62 :: byte], ByteTag 9)])" by simp
  have r: "readCompound_loop [([0x62], ByteTag 9)] \<lparr>data = ?d, pos = 0\<rparr>
      = Inr (CompoundTag ?m, \<lparr>data = ?d, pos = 16\<rparr>)"
    by (simp add: eval_defs)
  have k: "readID \<lparr>data = ?d, pos = 0\<rparr> = Inr (Some ID_BYTE, \<lparr>data = ?d, pos = 1\<rparr>)"
    by (simp add: eval_defs)
  have n: "readString \<lparr>data = ?d, pos = 1\<rparr> = Inr ([0x61], \<lparr>data = ?d, pos = 4\<rparr>)"
    by (simp add: eval_defs)
  have t: "readTag ID_BYTE \<lparr>data = ?d, pos = 4\<rparr> = Inr (ByteTag 1, \<lparr>data = ?d, pos = 5\<rparr>)"
    by (simp add: eval_defs)
  from compound_keeps_first_entry [OF s r] obtain m where m: "CompoundTag ?m = CompoundTag m"
    and keep: "\<forall>k old. map_of [([0x62 :: byte], ByteTag 9)] k = Some old \<longrightarrow> map_of m k = Some old"
    and first: "\<forall>T f1 name f2 tag f3.
             T \<noteq> ID_END \<and> readID \<lparr>data = ?d, pos = 0\<rparr> = Inr (Some T, f1)
               \<and> readString f1 = Inr (name, f2)
               \<and> readTag T f2 = Inr (tag, f3) \<and> map_of [([0x62 :: byte], ByteTag 9)] name = None
             \<longrightarrow> map_of m name = Some tag"
    and any: "\<forall>ct'. \<exists>m'. readCompound_loop ct' \<lparr>data = ?d, pos = 0\<rparr>
        = Inr (CompoundTag m', \<lparr>data = ?d, pos = 16\<rparr>)"
    by blast
  from m have mm: "m = ?m" by simp
  from keep have a: "map_of m [0x62] = Some (ByteTag 9)" by simp
  from first k n t have b: "map_of m [0x61] = Some (ByteTag 1)" by simp
  have e: "read [0x0A, 0, 0, 1, 0, 1, 0x61, 1, 1, 0, 1, 0x61, 2, 0]
       = Inr (CompoundTag [([], CompoundTag [([0x61], ByteTag 1)])])"
    by (simp add: eval_defs)
  from r a b any mm e show ?thesis by blast
qed

subsection \<open>The other scenarios of the spec\<close>

text \<open>
  The scenarios 1, 2, 3 and 5 of the spec: the root compound with the empty name and an
  empty body; the same with the entry \<open>"x"\<close>, an Int of value 42; that buffer cut after
  two bytes of the Int, which returns \<^verbatim>\<open>std::nullopt\<close>; and a kind byte \<open>0x99\<close> where the
  kind of an entry is expected, which returns \<^verbatim>\<open>std::nullopt\<close>.
\<close>

theorem spec_scenarios:
  "read [0x0A, 0, 0, 0] = Inr (CompoundTag [([], CompoundTag [])])
   \<and> read [0x0A, 0, 0, 3, 0, 1, 0x78, 0, 0, 0, 0x2A, 0]
       = Inr (CompoundTag [([], CompoundTag [([0x78], IntTag 42)])])
   \<and> read [0x0A, 0, 0, 3, 0, 1, 0x78, 0, 0] = Inl Nullopt
   \<and> read [0x0A, 0, 0, 0x99, 0, 0, 0] = Inl Nullopt"
  by (simp add: eval_defs)

end
